theory Spec2Isabelle
  imports Complex_Main "HOL-Library.Char_ord" "HOL-Library.List_Lexorder" "HOL-Library.Multiset"
begin

section \<open>Module constants\<close>

text \<open>
  The image browser of \<^verbatim>\<open>src/main.py\<close>. Python integers are unbounded, so they are
  \<open>int\<close>. A Python string is the list of the bytes of its UTF-8 encoding, a \<open>string\<close>:
  the ASCII characters are the bytes below 128, and the comparison of strings by code
  point is the lexicographic order of the bytes, which is the order of \<open>char list\<close>.
\<close>

definition THUMB_SIZE :: int where
  "THUMB_SIZE = 192"

definition THUMB_PADDING :: int where
  "THUMB_PADDING = 8"

definition SIDEBAR_WIDTH :: int where
  "SIDEBAR_WIDTH = 320"

definition SUPPORTED_EXT :: "string set" where
  "SUPPORTED_EXT = {''.jpg'', ''.jpeg'', ''.png'', ''.bmp'', ''.gif'', ''.tif'', ''.tiff'', ''.webp''}"

section \<open>Exceptions and the pieces of the Python library the program calls\<close>

text \<open>
  Exceptions are values. Every exception below is a subclass of \<open>Exception\<close>, so each is
  caught by the program's \<^verbatim>\<open>except Exception\<close> handlers.
\<close>

datatype exn =
    FileNotFoundError
  | PermissionError
  | NotADirectoryError
  | OSError
  | IndexError
  | TypeError
  | ValueError

text \<open>
  \<^verbatim>\<open>str.lower\<close>. On a string of ASCII characters it maps the 26 capital letters to
  their small ones and leaves the rest (\<open>ascii_lower\<close>). On any other string it follows the
  Unicode tables, which are not written out here: there it is the function
  \<open>unicode_lower\<close> that the environment supplies (see \<open>str_lower\<close> below).
\<close>

definition lower_char :: "char \<Rightarrow> char" where
  "lower_char c =
     (case map_of (zip ''ABCDEFGHIJKLMNOPQRSTUVWXYZ'' ''abcdefghijklmnopqrstuvwxyz'') c of
        Some d \<Rightarrow> d
      | None \<Rightarrow> c)"

definition ascii_lower :: "string \<Rightarrow> string" where
  "ascii_lower s = map lower_char s"

definition is_ascii :: "string \<Rightarrow> bool" where
  "is_ascii s = list_all (\<lambda>c. \<not> digit7 c) s"

text \<open>\<^verbatim>\<open>str.rfind(c)\<close> for a one-character needle: the last index of \<open>c\<close>, or \<open>-1\<close>.\<close>

fun rfind :: "char \<Rightarrow> string \<Rightarrow> int" where
  "rfind c [] = - 1"
| "rfind c (x # xs) =
     (let r = rfind c xs in if 0 \<le> r then r + 1 else if x = c then 0 else - 1)"

text \<open>
  \<^verbatim>\<open>PurePath.suffix\<close> of pathlib (Python 3.8 to 3.13), on the final component:
  \<^verbatim>\<open>i = name.rfind('.'); return name[i:] if 0 < i < len(name) - 1 else ''\<close>.
\<close>

definition suffix :: "string \<Rightarrow> string" where
  "suffix nm =
     (let i = rfind CHR ''.'' nm in
      if 0 < i \<and> i < int (length nm) - 1 then drop (nat i) nm else [])"

text \<open>
  The scanner's environment: what \<^verbatim>\<open>os.listdir\<close> answers for a directory and what
  \<^verbatim>\<open>Path.is_file()\<close> and \<^verbatim>\<open>Path.is_dir()\<close> answer for a path string, each of them
  either a result or the exception it raises; \<open>sep\<close> is \<^verbatim>\<open>os.sep\<close>; \<open>path_of\<close> is the
  constructor \<^verbatim>\<open>Path(s)\<close>; \<open>unicode_lower\<close> is \<^verbatim>\<open>str.lower\<close> on the strings that are
  not ASCII.
  A \<^verbatim>\<open>Path\<close> is what the scanner reads of it: \<^verbatim>\<open>str(x)\<close>, whether \<open>x\<close> has a component
  after its anchor (drive and root), and \<^verbatim>\<open>x.name\<close>. So \<^verbatim>\<open>Path('.')\<close>, \<^verbatim>\<open>Path('/')\<close> and
  \<^verbatim>\<open>Path('C:\\')\<close> have no tail, and \<^verbatim>\<open>Path('pics')\<close> has one.
\<close>

record path =
  pstr :: string
  has_tail :: bool
  pname :: string

record filesystem =
  sep :: string
  listdir :: "string \<Rightarrow> exn + string list"
  is_file_at :: "string \<Rightarrow> exn + bool"
  is_dir_at :: "string \<Rightarrow> exn + bool"
  path_of :: "string \<Rightarrow> path"
  unicode_lower :: "string \<Rightarrow> string"

definition str_lower :: "filesystem \<Rightarrow> string \<Rightarrow> string" where
  "str_lower fs s = (if is_ascii s then ascii_lower s else unicode_lower fs s)"

text \<open>
  The child that \<^verbatim>\<open>p.iterdir()\<close> yields for the name \<open>n\<close> (pathlib's
  \<^verbatim>\<open>_make_child_relpath\<close>): its string is \<^verbatim>\<open>str(p) + sep + n\<close> when \<open>p\<close> has a tail,
  \<^verbatim>\<open>str(p) + n\<close> when \<open>p\<close> is only an anchor, and \<open>n\<close> when \<open>p\<close> is \<^verbatim>\<open>Path('.')\<close>.
\<close>

definition make_child :: "filesystem \<Rightarrow> path \<Rightarrow> string \<Rightarrow> path" where
  "make_child fs p n =
     \<lparr>pstr = (if has_tail p then pstr p @ sep fs @ n
              else if pstr p \<noteq> ''.'' then pstr p @ n
              else n),
      has_tail = True,
      pname = n\<rparr>"

definition child_str :: "filesystem \<Rightarrow> path \<Rightarrow> string \<Rightarrow> string" where
  "child_str fs p n = pstr (make_child fs p n)"

definition iterdir :: "filesystem \<Rightarrow> path \<Rightarrow> exn + path list" where
  "iterdir fs p =
     (case listdir fs (pstr p) of
        Inl e \<Rightarrow> Inl e
      | Inr names \<Rightarrow> Inr (map (make_child fs p) names))"

definition is_file :: "filesystem \<Rightarrow> path \<Rightarrow> exn + bool" where
  "is_file fs x = is_file_at fs (pstr x)"

definition is_dir :: "filesystem \<Rightarrow> path \<Rightarrow> exn + bool" where
  "is_dir fs x = is_dir_at fs (pstr x)"

text \<open>
  A comprehension or generator with a condition that may raise: the elements are tested
  from left to right and the first exception ends the iteration.
\<close>

fun filter_try :: "('a \<Rightarrow> exn + bool) \<Rightarrow> 'a list \<Rightarrow> exn + 'a list" where
  "filter_try P [] = Inr []"
| "filter_try P (x # xs) =
     (case P x of
        Inl e \<Rightarrow> Inl e
      | Inr b \<Rightarrow>
          (case filter_try P xs of
             Inl e \<Rightarrow> Inl e
           | Inr ys \<Rightarrow> Inr (if b then x # ys else ys)))"

section \<open>Filesystem scanner\<close>

text \<open>\<^verbatim>\<open>p.is_file() and p.suffix.lower() in SUPPORTED_EXT\<close>\<close>

definition is_image_file :: "filesystem \<Rightarrow> path \<Rightarrow> exn + bool" where
  "is_image_file fs x =
     (case is_file fs x of
        Inl e \<Rightarrow> Inl e
      | Inr b \<Rightarrow> Inr (b \<and> str_lower fs (suffix (pname x)) \<in> SUPPORTED_EXT))"

text \<open>
  The body of the \<^verbatim>\<open>try\<close> of \<^verbatim>\<open>list_subdirs\<close>:
  \<^verbatim>\<open>sorted((x for x in p.iterdir() if x.is_dir()), key=lambda x: x.name.lower())\<close>.
  Python's \<^verbatim>\<open>sorted\<close> is stable, as \<open>sort_key\<close> is.
\<close>

definition list_subdirs_try :: "filesystem \<Rightarrow> path \<Rightarrow> exn + path list" where
  "list_subdirs_try fs p =
     (case iterdir fs p of
        Inl e \<Rightarrow> Inl e
      | Inr xs \<Rightarrow>
          (case filter_try (is_dir fs) xs of
             Inl e \<Rightarrow> Inl e
           | Inr ds \<Rightarrow> Inr (sort_key (\<lambda>x. str_lower fs (pname x)) ds)))"

definition list_subdirs :: "filesystem \<Rightarrow> path \<Rightarrow> path list" where
  "list_subdirs fs p = (case list_subdirs_try fs p of Inl e \<Rightarrow> [] | Inr r \<Rightarrow> r)"

text \<open>
  The body of the \<^verbatim>\<open>try\<close> of \<^verbatim>\<open>list_images\<close>:
  \<^verbatim>\<open>[str(x) for x in sorted(p.iterdir(), key=lambda x: x.name.lower()) if is_image_file(x)]\<close>.
\<close>

definition list_images_try :: "filesystem \<Rightarrow> path \<Rightarrow> exn + string list" where
  "list_images_try fs p =
     (case iterdir fs p of
        Inl e \<Rightarrow> Inl e
      | Inr xs \<Rightarrow>
          (case filter_try (is_image_file fs) (sort_key (\<lambda>x. str_lower fs (pname x)) xs) of
             Inl e \<Rightarrow> Inl e
           | Inr ys \<Rightarrow> Inr (map pstr ys)))"

definition list_images :: "filesystem \<Rightarrow> path \<Rightarrow> string list" where
  "list_images fs p = (case list_images_try fs p of Inl e \<Rightarrow> [] | Inr r \<Rightarrow> r)"

section \<open>Grid layout: the column count\<close>

text \<open>\<^verbatim>\<open>max(1, avail_w // (THUMB_SIZE + THUMB_PADDING))\<close>; \<open>//\<close> is floor division, as \<open>div\<close> on \<open>int\<close>.\<close>

definition compute_columns :: "int \<Rightarrow> int" where
  "compute_columns avail_w = max 1 (avail_w div (THUMB_SIZE + THUMB_PADDING))"

section \<open>A small file system for concrete runs\<close>

text \<open>
  \<^verbatim>\<open>Path(s)\<close> for a POSIX path string that is already in normal form.
\<close>

definition posix_path :: "string \<Rightarrow> path" where
  "posix_path s =
     (if s = ''/'' \<or> s = ''.'' then \<lparr>pstr = s, has_tail = False, pname = []\<rparr>
      else \<lparr>pstr = s, has_tail = True, pname = rev (takeWhile (\<lambda>c. c \<noteq> CHR ''/'') (rev s))\<rparr>)"

text \<open>
  \<open>pics\<close> holds the three files of the specification's example; \<open>home\<close> mixes directories
  and files, one of them the dotfile \<open>.jpg\<close>; \<open>guarded\<close> holds a picture and an entry that
  cannot be examined; \<open>locked\<close> cannot be listed; the root and the current directory hold
  one picture each; \<open>cafe\<close> holds two directories whose names begin with a capital and a
  small e with acute accent (the bytes C3 89 and C3 A9). Any other path is missing. The
  Unicode tables are cut down to the one capital letter used.
\<close>

definition example_fs :: filesystem where
  "example_fs =
     \<lparr>sep = ''/'',
      listdir = (\<lambda>p.
        if p = ''pics'' then Inr [''b.PNG'', ''a.jpg'', ''c.txt'']
        else if p = ''home'' then Inr [''Zoo'', ''notes.txt'', ''art'', ''.jpg'', ''x.jpeg'']
        else if p = ''guarded'' then Inr [''a.png'', ''vault'']
        else if p = ''/'' then Inr [''boot.png'']
        else if p = ''.'' then Inr [''here.gif'']
        else if p = ''cafe'' then Inr [[CHR 0xC3, CHR 0x89, CHR ''b''], [CHR 0xC3, CHR 0xA9, CHR ''a'']]
        else if p = ''locked'' then Inl PermissionError
        else Inl FileNotFoundError),
      is_file_at = (\<lambda>s.
        if s = ''guarded/vault'' then Inl PermissionError
        else Inr (s \<noteq> ''home/Zoo'' \<and> s \<noteq> ''home/art'' \<and> take 5 s \<noteq> ''cafe/'')),
      is_dir_at = (\<lambda>s.
        if s = ''guarded/vault'' then Inl PermissionError
        else Inr (s = ''home/Zoo'' \<or> s = ''home/art'' \<or> take 5 s = ''cafe/'')),
      path_of = posix_path,
      unicode_lower = map (\<lambda>c. if c = CHR 0x89 then CHR 0xA9 else c)\<rparr>"

section \<open>The viewer launcher\<close>

text \<open>
  The process environment: \<^verbatim>\<open>sys.platform\<close>, \<^verbatim>\<open>sys.executable\<close>,
  \<^verbatim>\<open>os.path.abspath(__file__)\<close>, and what \<^verbatim>\<open>subprocess.Popen(argv)\<close> and
  \<^verbatim>\<open>os.startfile(path)\<close> do for their argument: start something, or raise. Each function
  returns its outcome together with the calls it made to the operating system, in order.
\<close>

record os_env =
  platform :: string
  executable :: string
  script_path :: string
  popen :: "string list \<Rightarrow> exn + unit"
  startfile :: "string \<Rightarrow> exn + unit"

datatype os_call = Popen "string list" | Startfile string

definition startswith :: "string \<Rightarrow> string \<Rightarrow> bool" where
  "startswith s pre = (take (length pre) s = pre)"

definition open_system_viewer :: "os_env \<Rightarrow> string \<Rightarrow> (exn + unit) \<times> os_call list" where
  "open_system_viewer os image_path =
     (if startswith (platform os) ''win'' then
        (startfile os image_path, [Startfile image_path])
      else if platform os = ''darwin'' then
        (popen os [''open'', image_path], [Popen [''open'', image_path]])
      else
        (popen os [''xdg-open'', image_path], [Popen [''xdg-open'', image_path]]))"

definition viewer_argv :: "os_env \<Rightarrow> string \<Rightarrow> string list" where
  "viewer_argv os image_path = [executable os, script_path os, ''--view'', image_path]"

definition launch_viewer :: "os_env \<Rightarrow> string \<Rightarrow> (exn + unit) \<times> os_call list" where
  "launch_viewer os image_path =
     (case popen os (viewer_argv os image_path) of
        Inr u \<Rightarrow> (Inr (), [Popen (viewer_argv os image_path)])
      | Inl e \<Rightarrow>
          (let (r, calls) = open_system_viewer os image_path
           in (r, Popen (viewer_argv os image_path) # calls)))"

section \<open>The toolkit: items, tags and the item store\<close>

text \<open>
  A Dear PyGui tag is an integer or a string. Generated tags are integers taken from a
  counter that only grows, so they are positive. Python's truth value of a tag: \<open>0\<close> and
  the empty string are false.
\<close>

datatype tag = TagInt nat | TagStr string

fun truthy :: "tag \<Rightarrow> bool" where
  "truthy (TagInt n) = (n \<noteq> 0)"
| "truthy (TagStr s) = (s \<noteq> [])"

text \<open>Truth value of a state entry that is \<^verbatim>\<open>None\<close> or a tag.\<close>

fun truthy_opt :: "tag option \<Rightarrow> bool" where
  "truthy_opt None = False"
| "truthy_opt (Some t) = truthy t"

text \<open>
  The items the program creates. An item has a kind (with the arguments of the call that
  matter: a label, a texture, the \<^verbatim>\<open>user_data\<close>) and a parent; \<open>TagInt 0\<close> as parent stands
  for a root item. The store lists the live items in creation order. Calls on the toolkit
  are taken to succeed.
\<close>

datatype item_kind =
    Window
  | ChildWindow
  | TextureRegistry
  | Table
  | TableColumn
  | TableRow
  | TableCell
  | Text string
  | Group
  | ImageButton tag
  | Button string "string option"
  | ItemHandlerRegistry
  | DoubleClickedHandler string
  | StaticTexture nat nat "real list"
  | TreeNode string

record item =
  ikind :: item_kind
  iparent :: tag

record dpg =
  last_uuid :: nat
  items :: "(tag \<times> item) list"
  bindings :: "(tag \<times> tag) list"
  path_label :: string
  sidebar_label :: string
  main_window_size :: "int \<times> int"

definition add_item :: "item_kind \<Rightarrow> tag \<Rightarrow> dpg \<Rightarrow> tag \<times> dpg" where
  "add_item k par g =
     (let t = TagInt (Suc (last_uuid g))
      in (t, g\<lparr>last_uuid := Suc (last_uuid g),
               items := items g @ [(t, \<lparr>ikind = k, iparent = par\<rparr>)]\<rparr>))"

definition does_item_exist :: "dpg \<Rightarrow> tag \<Rightarrow> bool" where
  "does_item_exist g t = (t \<in> set (map fst (items g)))"

text \<open>
  \<^verbatim>\<open>delete_item\<close> removes an item and everything below it. A parent is created before
  its children, so one pass in creation order finds them all.
\<close>

fun delete_from :: "tag list \<Rightarrow> (tag \<times> item) list \<Rightarrow> (tag \<times> item) list" where
  "delete_from dead [] = []"
| "delete_from dead ((t, it) # rest) =
     (if t \<in> set dead \<or> iparent it \<in> set dead then delete_from (t # dead) rest
      else (t, it) # delete_from dead rest)"

definition delete_item :: "tag \<Rightarrow> dpg \<Rightarrow> dpg" where
  "delete_item t g = g\<lparr>items := delete_from [t] (items g)\<rparr>"

definition bind_item_handler_registry :: "tag \<Rightarrow> tag \<Rightarrow> dpg \<Rightarrow> dpg" where
  "bind_item_handler_registry it reg g = g\<lparr>bindings := bindings g @ [(it, reg)]\<rparr>"

text \<open>\<^verbatim>\<open>get_item_children(t, 1)\<close>: the children of \<open>t\<close>, in order.\<close>

definition get_item_children :: "dpg \<Rightarrow> tag \<Rightarrow> tag list" where
  "get_item_children g t = map fst (filter (\<lambda>(i, it). iparent it = t) (items g))"

section \<open>Application state and the outside world of the interface\<close>

text \<open>The module's \<^verbatim>\<open>state\<close> dictionary, one field per key.\<close>

record app_state =
  root_dir :: string
  current_dir :: string
  images_in_dir :: "string list"
  thumb_tex :: "string \<rightharpoonup> tag"
  thumb_items :: "tag list"
  grid_table :: "tag option"
  grid_child :: "tag option"
  texreg :: tag
  frames :: int

text \<open>
  A decoded image, as the imaging library hands it over: its size and the bytes of its
  RGBA form (\<^verbatim>\<open>image.convert("RGBA").tobytes()\<close>).
\<close>

record image =
  img_size :: "nat \<times> nat"
  img_rgba :: "nat list"

text \<open>
  What the interface code asks of the world at the time of a call: \<open>open_thumbnail\<close> is
  \<^verbatim>\<open>Image.open(path)\<close> followed by \<^verbatim>\<open>im.thumbnail((THUMB_SIZE, THUMB_SIZE), Image.LANCZOS)\<close>,
  an image or the exception raised; \<open>rect_size\<close> is \<^verbatim>\<open>dpg.get_item_rect_size\<close>;
  \<open>basename\<close> is \<^verbatim>\<open>os.path.basename\<close>. The file system is not part of it: a function
  that is not handed a \<open>filesystem\<close> cannot scan a directory.
\<close>

record env =
  open_thumbnail :: "string \<Rightarrow> exn + image"
  rect_size :: "tag \<Rightarrow> int \<times> int"
  basename :: "string \<Rightarrow> string"

section \<open>Thumbnail cache\<close>

text \<open>\<^verbatim>\<open>data = [b / 255.0 for b in array.array("B", img.tobytes())]\<close>, the quotients as reals.\<close>

definition pil_to_dpg :: "image \<Rightarrow> nat \<times> nat \<times> real list" where
  "pil_to_dpg im = (fst (img_size im), snd (img_size im), map (\<lambda>b. real b / 255) (img_rgba im))"

text \<open>
  \<open>pil_ok\<close> is the module constant \<^verbatim>\<open>PIL_OK\<close>, fixed when the module is imported.
  \<^verbatim>\<open>state["thumb_tex"].get(path)\<close> is \<^verbatim>\<open>None\<close> for a missing key, and \<^verbatim>\<open>if tex:\<close> tests
  the truth value. Every exception of the \<^verbatim>\<open>try\<close> block ends in \<^verbatim>\<open>return None\<close>.
\<close>

definition thumb_for ::
  "bool \<Rightarrow> env \<Rightarrow> app_state \<times> dpg \<Rightarrow> string \<Rightarrow> tag option \<times> app_state \<times> dpg" where
  "thumb_for pil_ok e sg p =
     (let (s, g) = sg in
      if \<not> pil_ok then (None, s, g)
      else if truthy_opt (thumb_tex s p) then (thumb_tex s p, s, g)
      else
        (case open_thumbnail e p of
           Inl ex \<Rightarrow> (None, s, g)
         | Inr im \<Rightarrow>
             (let (w, h, data) = pil_to_dpg im;
                  (tex, g') = add_item (StaticTexture w h data) (texreg s) g
              in (Some tex, s\<lparr>thumb_tex := (thumb_tex s)(p \<mapsto> tex)\<rparr>, g'))))"

section \<open>Grid layout: building the table\<close>

definition available_grid_width :: "env \<Rightarrow> app_state \<Rightarrow> int" where
  "available_grid_width e s =
     (case grid_child s of
        None \<Rightarrow> 800
      | Some gc \<Rightarrow>
          if \<not> truthy gc then 800
          else (let w = fst (rect_size e gc) in if w > 0 then w else 800))"

definition clear_grid_items :: "app_state \<times> dpg \<Rightarrow> app_state \<times> dpg" where
  "clear_grid_items sg =
     (let (s, g) = sg;
          g1 = fold (\<lambda>it g. if does_item_exist g it then delete_item it g else g) (thumb_items s) g;
          s1 = s\<lparr>thumb_items := []\<rparr>
      in case grid_table s1 of
           None \<Rightarrow> (s1, g1)
         | Some t \<Rightarrow>
             if truthy t \<and> does_item_exist g1 t then (s1\<lparr>grid_table := None\<rparr>, delete_item t g1)
             else (s1, g1))"

text \<open>\<^verbatim>\<open>for _ in range(cols): dpg.add_table_column(...)\<close>, inside \<^verbatim>\<open>with dpg.table(...)\<close>.\<close>

fun add_table_columns :: "nat \<Rightarrow> tag \<Rightarrow> dpg \<Rightarrow> dpg" where
  "add_table_columns 0 table_id g = g"
| "add_table_columns (Suc n) table_id g = add_table_columns n table_id (snd (add_item TableColumn table_id g))"

text \<open>
  The body of the loop over the images, from \<^verbatim>\<open>with dpg.table_cell(parent=row):\<close> on. A
  context manager makes its item the parent of the items created inside it without a
  \<^verbatim>\<open>parent\<close> argument; item handler registries are root items.
\<close>

definition add_thumb_cell ::
  "bool \<Rightarrow> env \<Rightarrow> tag \<Rightarrow> string \<Rightarrow> app_state \<times> dpg \<Rightarrow> app_state \<times> dpg" where
  "add_thumb_cell pil_ok e row p sg =
     (let (s, g) = sg;
          (cell, g1) = add_item TableCell row g;
          (tex, s2, g2) = thumb_for pil_ok e (s, g1) p;
          (grp, g3) = add_item Group cell g2;
          (btn, g4) =
            (if truthy_opt tex then add_item (ImageButton (the tex)) grp g3
             else add_item (Button ''Open'' None) grp g3);
          (ihr, g5) = add_item ItemHandlerRegistry (TagInt 0) g4;
          (hdl, g6) = add_item (DoubleClickedHandler p) ihr g5;
          g7 = bind_item_handler_registry btn ihr g6;
          s3 = s2\<lparr>thumb_items := thumb_items s2 @ [ihr]\<rparr>;
          (txt, g8) = add_item (Text (basename e p)) grp g7;
          s4 = s3\<lparr>thumb_items := thumb_items s3 @ [grp]\<rparr>
      in (s4, g8))"

text \<open>
  \<^verbatim>\<open>for i, p in enumerate(imgs)\<close>, with the loop variable \<^verbatim>\<open>row\<close> (\<^verbatim>\<open>None\<close> before the
  first row is made). A cell made while \<^verbatim>\<open>row\<close> is \<^verbatim>\<open>None\<close> would fall to the enclosing
  table; \<open>cols\<close> is positive, so the first image always opens a row.
\<close>

fun grid_loop ::
  "bool \<Rightarrow> env \<Rightarrow> int \<Rightarrow> tag \<Rightarrow> int \<Rightarrow> tag option \<Rightarrow> string list \<Rightarrow> app_state \<times> dpg
     \<Rightarrow> app_state \<times> dpg" where
  "grid_loop pil_ok e cols table_id i row [] sg = sg"
| "grid_loop pil_ok e cols table_id i row (p # ps) sg =
     (let (s, g) = sg;
          (row', g1) =
            (if i mod cols = 0 then (let (r, g1) = add_item TableRow table_id g in (Some r, g1))
             else (row, g));
          sg2 = add_thumb_cell pil_ok e (case row' of None \<Rightarrow> table_id | Some r \<Rightarrow> r) p (s, g1)
      in grid_loop pil_ok e cols table_id (i + 1) row' ps sg2)"

definition build_thumbnail_grid :: "bool \<Rightarrow> env \<Rightarrow> app_state \<times> dpg \<Rightarrow> app_state \<times> dpg" where
  "build_thumbnail_grid pil_ok e sg =
     (let (s1, g1) = clear_grid_items sg;
          cols = compute_columns (available_grid_width e s1);
          (table_id, g2) =
            add_item Table (case grid_child s1 of None \<Rightarrow> TagInt 0 | Some gc \<Rightarrow> gc) g1;
          s2 = s1\<lparr>grid_table := Some table_id\<rparr>;
          g3 = add_table_columns (nat cols) table_id g2;
          imgs = images_in_dir s2
      in if imgs = [] then
           (let (row, g4) = add_item TableRow table_id g3;
                (cell, g5) = add_item TableCell row g4;
                msg = (if pil_ok then ''No images in this folder.''
                       else ''Pillow not installed. Thumbs disabled.'');
                (txt, g6) = add_item (Text msg) cell g5
            in (s2\<lparr>thumb_items := thumb_items s2 @ [txt]\<rparr>, g6))
         else grid_loop pil_ok e cols table_id 0 None imgs (s2, g3))"

section \<open>Callbacks\<close>

text \<open>The callback argument \<^verbatim>\<open>app_data\<close> is a Python value; only what \<^verbatim>\<open>resize_callback\<close> can meet is modelled.\<close>

datatype pyval = PyNone | PyInt int | PyList "pyval list"

fun subscript :: "pyval \<Rightarrow> nat \<Rightarrow> exn + pyval" where
  "subscript (PyList xs) i = (if i < length xs then Inr (xs ! i) else Inl IndexError)"
| "subscript v i = Inl TypeError"

fun py_int :: "pyval \<Rightarrow> exn + int" where
  "py_int (PyInt n) = Inr n"
| "py_int v = Inl TypeError"

text \<open>\<^verbatim>\<open>width, height = int(app_data[0]), int(app_data[1])\<close>\<close>

definition resize_args :: "pyval \<Rightarrow> exn + int \<times> int" where
  "resize_args app_data =
     (case subscript app_data 0 of
        Inl ex \<Rightarrow> Inl ex
      | Inr a \<Rightarrow>
          (case py_int a of
             Inl ex \<Rightarrow> Inl ex
           | Inr width \<Rightarrow>
               (case subscript app_data 1 of
                  Inl ex \<Rightarrow> Inl ex
                | Inr b \<Rightarrow>
                    (case py_int b of
                       Inl ex \<Rightarrow> Inl ex
                     | Inr height \<Rightarrow> Inr (width, height)))))"

definition resize_callback :: "bool \<Rightarrow> env \<Rightarrow> pyval \<Rightarrow> app_state \<times> dpg \<Rightarrow> app_state \<times> dpg" where
  "resize_callback pil_ok e app_data sg =
     (case resize_args app_data of
        Inl ex \<Rightarrow> sg
      | Inr (width, height) \<Rightarrow>
          build_thumbnail_grid pil_ok e
            (fst sg, (snd sg)\<lparr>main_window_size := (width, height - 30)\<rparr>))"

definition load_directory_images :: "filesystem \<Rightarrow> string \<Rightarrow> app_state \<times> dpg \<Rightarrow> app_state \<times> dpg" where
  "load_directory_images fs p sg =
     ((fst sg)\<lparr>current_dir := p, images_in_dir := list_images fs (path_of fs p)\<rparr>,
      (snd sg)\<lparr>path_label := p\<rparr>)"

definition on_folder_click ::
  "bool \<Rightarrow> env \<Rightarrow> filesystem \<Rightarrow> string \<Rightarrow> app_state \<times> dpg \<Rightarrow> app_state \<times> dpg" where
  "on_folder_click pil_ok e fs user_data sg =
     build_thumbnail_grid pil_ok e (load_directory_images fs user_data sg)"

text \<open>
  \<^verbatim>\<open>rebuild_sidebar_tree\<close>: relabel the tree, delete its children, and add one node with
  an "Open folder" button for each subdirectory of the root.
\<close>

fun add_tree_nodes :: "filesystem \<Rightarrow> path list \<Rightarrow> dpg \<Rightarrow> dpg" where
  "add_tree_nodes fs [] g = g"
| "add_tree_nodes fs (sub # subs) g =
     (let (nid, g1) = add_item (TreeNode (pname sub)) (TagStr ''sidebar_tree'') g;
          (b, g2) = add_item (Button ''Open folder'' (Some (pstr sub))) nid g1
      in add_tree_nodes fs subs g2)"

definition rebuild_sidebar_tree :: "env \<Rightarrow> filesystem \<Rightarrow> app_state \<times> dpg \<Rightarrow> app_state \<times> dpg" where
  "rebuild_sidebar_tree e fs sg =
     (let (s, g) = sg;
          g1 = g\<lparr>sidebar_label := pname (path_of fs (root_dir s))\<rparr>;
          kids = get_item_children g1 (TagStr ''sidebar_tree'');
          g2 = fold delete_item kids g1
      in (s, add_tree_nodes fs (list_subdirs fs (path_of fs (root_dir s))) g2))"

definition set_root_directory ::
  "bool \<Rightarrow> env \<Rightarrow> filesystem \<Rightarrow> string \<Rightarrow> app_state \<times> dpg \<Rightarrow> app_state \<times> dpg" where
  "set_root_directory pil_ok e fs p sg =
     (let (s, g) = sg;
          sg1 = load_directory_images fs p (s\<lparr>root_dir := p\<rparr>, g);
          sg2 = rebuild_sidebar_tree e fs sg1
      in build_thumbnail_grid pil_ok e sg2)"

text \<open>
  What the running program does to the state, one event at a time; each event carries
  the world as it is when the event is handled. \<open>WidthChanged\<close> is the rebuild of the
  render loop when the measured width differs from the last one seen.
\<close>

datatype event =
    RootChosen env filesystem string
  | FolderClicked env filesystem string
  | Resized env pyval
  | WidthChanged env
  | ThumbRequested env string

fun handle :: "bool \<Rightarrow> event \<Rightarrow> app_state \<times> dpg \<Rightarrow> app_state \<times> dpg" where
  "handle pil_ok (RootChosen e fs p) sg = set_root_directory pil_ok e fs p sg"
| "handle pil_ok (FolderClicked e fs p) sg = on_folder_click pil_ok e fs p sg"
| "handle pil_ok (Resized e app_data) sg = resize_callback pil_ok e app_data sg"
| "handle pil_ok (WidthChanged e) sg = build_thumbnail_grid pil_ok e sg"
| "handle pil_ok (ThumbRequested e p) sg = snd (thumb_for pil_ok e sg p)"

definition run :: "bool \<Rightarrow> event list \<Rightarrow> app_state \<times> dpg \<Rightarrow> app_state \<times> dpg" where
  "run pil_ok evs sg = fold (handle pil_ok) evs sg"

section \<open>Reading the grid off the item store\<close>

text \<open>
  What is on screen is read off the store: the children of an item with a given kind, in
  creation order; the rows of a table and the cells of a row; for a cell, the paths its
  double click opens (through its group, the button in it, the registry bound to the
  button and the handlers of that registry), and the texts placed directly in it.
\<close>

definition kids :: "(item_kind \<Rightarrow> bool) \<Rightarrow> (tag \<times> item) list \<Rightarrow> tag \<Rightarrow> tag list" where
  "kids P xs t = map fst (filter (\<lambda>(i, it). iparent it = t \<and> P (ikind it)) xs)"

definition rows_of :: "(tag \<times> item) list \<Rightarrow> tag \<Rightarrow> tag list" where
  "rows_of xs t = kids (\<lambda>k. k = TableRow) xs t"

definition cells_of :: "(tag \<times> item) list \<Rightarrow> tag \<Rightarrow> tag list" where
  "cells_of xs r = kids (\<lambda>k. k = TableCell) xs r"

fun is_button :: "item_kind \<Rightarrow> bool" where
  "is_button (ImageButton tex) = True"
| "is_button (Button label user_data) = True"
| "is_button k = False"

fun handler_path :: "item_kind \<Rightarrow> string list" where
  "handler_path (DoubleClickedHandler p) = [p]"
| "handler_path k = []"

fun text_of :: "item_kind \<Rightarrow> string list" where
  "text_of (Text s) = [s]"
| "text_of k = []"

definition handler_paths :: "(tag \<times> item) list \<Rightarrow> tag \<Rightarrow> string list" where
  "handler_paths xs reg =
     concat (map (\<lambda>(i, it). if iparent it = reg then handler_path (ikind it) else []) xs)"

definition registries_of :: "(tag \<times> tag) list \<Rightarrow> tag \<Rightarrow> tag list" where
  "registries_of bs btn = map snd (filter (\<lambda>(b, r). b = btn) bs)"

definition button_targets :: "dpg \<Rightarrow> tag \<Rightarrow> string list" where
  "button_targets g btn = concat (map (handler_paths (items g)) (registries_of (bindings g) btn))"

definition group_targets :: "dpg \<Rightarrow> tag \<Rightarrow> string list" where
  "group_targets g grp = concat (map (button_targets g) (kids is_button (items g) grp))"

definition cell_targets :: "dpg \<Rightarrow> tag \<Rightarrow> string list" where
  "cell_targets g c = concat (map (group_targets g) (kids (\<lambda>k. k = Group) (items g) c))"

definition cell_texts :: "dpg \<Rightarrow> tag \<Rightarrow> string list" where
  "cell_texts g c =
     concat (map (\<lambda>(i, it). if iparent it = c then text_of (ikind it) else []) (items g))"

text \<open>The grid of a table: its rows in order, each the list of its cells' targets.\<close>

definition grid_view :: "dpg \<Rightarrow> tag \<Rightarrow> string list list list" where
  "grid_view g t = map (\<lambda>r. map (cell_targets g) (cells_of (items g) r)) (rows_of (items g) t)"

text \<open>The grid of the table the state points to.\<close>

definition shown_grid :: "app_state \<times> dpg \<Rightarrow> string list list list" where
  "shown_grid sg =
     (case grid_table (fst sg) of None \<Rightarrow> [] | Some t \<Rightarrow> grid_view (snd sg) t)"

text \<open>The same for the placeholder: the rows in order, each the list of its cells' texts.\<close>

definition shown_texts :: "app_state \<times> dpg \<Rightarrow> string list list list" where
  "shown_texts sg =
     (case grid_table (fst sg) of
        None \<Rightarrow> []
      | Some t \<Rightarrow> map (\<lambda>r. map (cell_texts (snd sg)) (cells_of (items (snd sg)) r))
                    (rows_of (items (snd sg)) t))"

text \<open>
  Tags in use never run ahead of the counter: every item, every parent, every binding and
  the two tags kept in the state are strings or integers up to \<open>last_uuid\<close>. This holds
  when the interface has been built and is kept by every event the program handles
  (\<open>run_store_ok\<close> below).
\<close>

fun tag_le :: "tag \<Rightarrow> nat \<Rightarrow> bool" where
  "tag_le (TagInt k) n = (k \<le> n)"
| "tag_le (TagStr s) n = True"

definition items_ok :: "nat \<Rightarrow> (tag \<times> item) list \<Rightarrow> bool" where
  "items_ok n xs = list_all (\<lambda>(i, it). tag_le i n \<and> tag_le (iparent it) n) xs"

definition bindings_ok :: "nat \<Rightarrow> (tag \<times> tag) list \<Rightarrow> bool" where
  "bindings_ok n bs = list_all (\<lambda>(b, r). tag_le b n \<and> tag_le r n) bs"

definition store_ok :: "app_state \<times> dpg \<Rightarrow> bool" where
  "store_ok sg =
     (items_ok (last_uuid (snd sg)) (items (snd sg))
      \<and> bindings_ok (last_uuid (snd sg)) (bindings (snd sg))
      \<and> tag_le (texreg (fst sg)) (last_uuid (snd sg))
      \<and> (case grid_child (fst sg) of None \<Rightarrow> True | Some gc \<Rightarrow> tag_le gc (last_uuid (snd sg))))"

text \<open>
  The layout the loop produces, on plain lists: the element with index \<open>i\<close> opens a new
  row when \<open>i mod cols = 0\<close> and is otherwise put at the end of the last row.
\<close>

fun lay :: "int \<Rightarrow> int \<Rightarrow> 'a list list \<Rightarrow> 'a list \<Rightarrow> 'a list list" where
  "lay cols i rows [] = rows"
| "lay cols i rows (x # xs) =
     lay cols (i + 1)
       (if i mod cols = 0 then rows @ [[x]] else butlast rows @ [last rows @ [x]]) xs"

text \<open>The row lengths of \<open>n\<close> cells in rows of \<open>c\<close>: full rows, then the rest if there is one.\<close>

definition row_lengths :: "nat \<Rightarrow> nat \<Rightarrow> nat list" where
  "row_lengths c n = replicate (n div c) c @ (if n mod c = 0 then [] else [n mod c])"

text \<open>
  The items one image adds after its cell and its texture, if any: the group in cell \<open>c\<close>,
  the button \<open>B\<close>, the handler registry with its double-click handler, and the label,
  with the tags that follow the counter value \<open>m\<close>.
\<close>

definition cell_tail :: "env \<Rightarrow> string \<Rightarrow> tag \<Rightarrow> item_kind \<Rightarrow> nat \<Rightarrow> (tag \<times> item) list" where
  "cell_tail e p c B m =
     [(TagInt (Suc m), \<lparr>ikind = Group, iparent = c\<rparr>),
      (TagInt (Suc (Suc m)), \<lparr>ikind = B, iparent = TagInt (Suc m)\<rparr>),
      (TagInt (Suc (Suc (Suc m))), \<lparr>ikind = ItemHandlerRegistry, iparent = TagInt 0\<rparr>),
      (TagInt (Suc (Suc (Suc (Suc m)))), \<lparr>ikind = DoubleClickedHandler p, iparent = TagInt (Suc (Suc (Suc m)))\<rparr>),
      (TagInt (Suc (Suc (Suc (Suc (Suc m))))), \<lparr>ikind = Text (basename e p), iparent = TagInt (Suc m)\<rparr>)]"

section \<open>A small world for concrete runs of the interface\<close>

text \<open>
  A Linux desktop on which the interpreter cannot be started again but \<^verbatim>\<open>xdg-open\<close> can,
  and a Windows one on which neither the interpreter nor \<^verbatim>\<open>os.startfile\<close> works.
\<close>

definition example_os :: os_env where
  "example_os =
     \<lparr>platform = ''linux'',
      executable = ''/usr/bin/python3'',
      script_path = ''/opt/gallery/main.py'',
      popen = (\<lambda>argv. if take 1 argv = [''xdg-open''] then Inr () else Inl PermissionError),
      startfile = (\<lambda>p. Inl OSError)\<rparr>"

definition example_win :: os_env where
  "example_win =
     \<lparr>platform = ''win32'',
      executable = [],
      script_path = ''C:/gallery/main.py'',
      popen = (\<lambda>argv. Inl FileNotFoundError),
      startfile = (\<lambda>p. Inl OSError)\<rparr>"

text \<open>
  The imaging library decodes \<open>pics/a.jpg\<close> to a picture of two pixels and fails on every
  other path; the grid area is 500 pixels wide.
\<close>

definition example_env :: env where
  "example_env =
     \<lparr>open_thumbnail = (\<lambda>p.
        if p = ''pics/a.jpg'' then Inr \<lparr>img_size = (2, 1), img_rgba = [255, 0, 0, 255, 0, 0, 0, 255]\<rparr>
        else Inl OSError),
      rect_size = (\<lambda>t. (500, 400)),
      basename = (\<lambda>p. rev (takeWhile (\<lambda>c. c \<noteq> CHR ''/'') (rev p)))\<rparr>"

text \<open>The same world after \<open>pics/b.PNG\<close> has become readable too.\<close>

definition example_env2 :: env where
  "example_env2 =
     example_env\<lparr>open_thumbnail := (\<lambda>p.
        if p = ''pics/a.jpg'' \<or> p = ''pics/b.PNG''
        then Inr \<lparr>img_size = (1, 1), img_rgba = [0, 0, 0, 255]\<rparr>
        else Inl OSError)\<rparr>"

text \<open>A world in which nothing can be decoded.\<close>

definition blind_env :: env where
  "blind_env = example_env\<lparr>open_thumbnail := (\<lambda>p. Inl OSError)\<rparr>"

text \<open>The state and the item store as \<^verbatim>\<open>build_ui\<close> leaves them, before the first directory is loaded.\<close>

definition example_dpg :: dpg where
  "example_dpg =
     \<lparr>last_uuid = 30,
      items =
        [(TagStr ''texreg'', \<lparr>ikind = TextureRegistry, iparent = TagInt 0\<rparr>),
         (TagStr ''main_window'', \<lparr>ikind = Window, iparent = TagInt 0\<rparr>),
         (TagStr ''sidebar_tree'', \<lparr>ikind = TreeNode ''Root'', iparent = TagStr ''main_window''\<rparr>),
         (TagStr ''grid_child'', \<lparr>ikind = ChildWindow, iparent = TagStr ''main_window''\<rparr>)],
      bindings = [],
      path_label = ''pics'',
      sidebar_label = ''Root'',
      main_window_size = (900, 820)\<rparr>"

definition example_state :: "string list \<Rightarrow> app_state" where
  "example_state imgs =
     \<lparr>root_dir = ''home'',
      current_dir = ''pics'',
      images_in_dir = imgs,
      thumb_tex = Map.empty,
      thumb_items = [],
      grid_table = None,
      grid_child = Some (TagStr ''grid_child''),
      texreg = TagStr ''texreg'',
      frames = 0\<rparr>"

section \<open>Properties of the column count\<close>

text \<open>
  C1: for every integer width \<open>w\<close>, \<open>compute_columns w\<close> is \<open>max 1 (w div (192 + 8))\<close>;
  in particular a width of 500 gives 2 columns.
\<close>

theorem compute_columns_formula:
  "compute_columns w = max 1 (w div (192 + 8)) \<and> compute_columns 500 = 2"
  by (simp add: compute_columns_def THUMB_SIZE_def THUMB_PADDING_def)

text \<open>
  C7: \<open>compute_columns\<close> is non-decreasing in the width and at least 1 for every width,
  the width 0 included.
\<close>

theorem compute_columns_mono_pos:
  "(w1 \<le> w2 \<longrightarrow> compute_columns w1 \<le> compute_columns w2)
   \<and> 1 \<le> compute_columns w \<and> 1 \<le> compute_columns 0"
proof -
  have "w1 \<le> w2 \<Longrightarrow> w1 div 200 \<le> w2 div 200"
    by (rule zdiv_mono1) simp_all
  then show ?thesis
    by (auto simp: compute_columns_def THUMB_SIZE_def THUMB_PADDING_def)
qed

theorem compute_columns_mono_pos_witness:
  "(150 :: int) \<le> 650 \<and> compute_columns 150 \<le> compute_columns 650
   \<and> compute_columns 150 = 1 \<and> compute_columns 650 = 3 \<and> 1 \<le> compute_columns (- 7)"
  using compute_columns_mono_pos [of 150 650 "- 7"]
  by (simp add: compute_columns_def THUMB_SIZE_def THUMB_PADDING_def)

section \<open>Properties of the filesystem scanner\<close>

lemma filter_try_ok:
  "\<forall>x\<in>set xs. \<exists>b. P x = Inr b \<Longrightarrow> filter_try P xs = Inr (filter (\<lambda>x. P x = Inr True) xs)"
  by (induction xs) (auto split: sum.splits)

lemma filter_try_err:
  "x \<in> set xs \<Longrightarrow> P x = Inl e \<Longrightarrow> \<exists>e'. filter_try P xs = Inl e'"
  by (induction xs) (auto split: sum.splits)

lemma pname_make_child: "pname (make_child fs p n) = n"
  by (simp add: make_child_def)

lemma pstr_make_child: "pstr (make_child fs p n) = child_str fs p n"
  by (simp add: child_str_def)

lemma child_str_inject: "child_str fs p n = child_str fs p m \<Longrightarrow> n = m"
  by (simp add: child_str_def make_child_def split: if_splits)

lemma str_lower_ascii: "is_ascii s \<Longrightarrow> str_lower fs s = ascii_lower s"
  by (simp add: str_lower_def)

lemma iterdir_ok:
  "listdir fs (pstr p) = Inr names \<Longrightarrow> iterdir fs p = Inr (map (make_child fs p) names)"
  by (simp add: iterdir_def)

lemma sort_key_map_comm:
  "sort_key k (map f xs) = map f (sort_key (\<lambda>a. k (f a)) xs)"
proof (induction xs)
  case Nil
  then show ?case by simp
next
  case (Cons x xs)
  have ins: "insort_key k (f x) (map f ys) = map f (insort_key (\<lambda>a. k (f a)) x ys)" for ys
    by (induction ys) auto
  from Cons show ?case by (simp add: ins)
qed

lemma sort_children:
  "sort_key (\<lambda>x. str_lower fs (pname x)) (map (make_child fs p) names)
     = map (make_child fs p) (sort_key (str_lower fs) names)"
  by (simp add: sort_key_map_comm pname_make_child)

lemma list_images_ok:
  assumes "listdir fs (pstr p) = Inr names"
    and "\<forall>n\<in>set names. \<exists>b. is_file_at fs (child_str fs p n) = Inr b"
  shows "list_images fs p =
     map (child_str fs p)
       (filter (\<lambda>n. is_file_at fs (child_str fs p n) = Inr True \<and> str_lower fs (suffix n) \<in> SUPPORTED_EXT)
          (sort_key (str_lower fs) names))"
proof -
  let ?mk = "make_child fs p"
  let ?xs = "map ?mk (sort_key (str_lower fs) names)"
  have ok: "\<forall>x\<in>set ?xs. \<exists>b. is_image_file fs x = Inr b"
    using assms(2) by (auto simp: is_image_file_def is_file_def pstr_make_child split: sum.splits)
  have "list_images_try fs p = Inr (map pstr (filter (\<lambda>x. is_image_file fs x = Inr True) ?xs))"
    using filter_try_ok [OF ok]
    by (simp add: list_images_try_def iterdir_ok [OF assms(1)] sort_children)
  also have "filter (\<lambda>x. is_image_file fs x = Inr True) ?xs =
      map ?mk (filter (\<lambda>n. is_file_at fs (child_str fs p n) = Inr True \<and> str_lower fs (suffix n) \<in> SUPPORTED_EXT)
          (sort_key (str_lower fs) names))"
    unfolding filter_map
    by (rule arg_cong [where f = "map ?mk"], rule filter_cong [OF refl])
       (auto simp: is_image_file_def is_file_def pstr_make_child pname_make_child split: sum.splits)
  finally show ?thesis
    by (simp add: list_images_def comp_def pstr_make_child)
qed

lemma list_subdirs_ok:
  assumes "listdir fs (pstr p) = Inr names"
    and "\<forall>n\<in>set names. \<exists>b. is_dir_at fs (child_str fs p n) = Inr b"
  shows "list_subdirs fs p =
     map (make_child fs p)
       (sort_key (str_lower fs) (filter (\<lambda>n. is_dir_at fs (child_str fs p n) = Inr True) names))"
proof -
  let ?mk = "make_child fs p"
  have ok: "\<forall>x\<in>set (map ?mk names). \<exists>b. is_dir fs x = Inr b"
    using assms(2) by (auto simp: is_dir_def pstr_make_child)
  have flt: "filter (\<lambda>x. is_dir fs x = Inr True) (map ?mk names) =
      map ?mk (filter (\<lambda>n. is_dir_at fs (child_str fs p n) = Inr True) names)"
    by (simp add: filter_map comp_def is_dir_def pstr_make_child)
  show ?thesis
    using filter_try_ok [OF ok]
    by (simp add: list_subdirs_def list_subdirs_try_def iterdir_ok [OF assms(1)] flt sort_children)
qed

lemma list_dir_error:
  assumes "listdir fs (pstr p) = Inl e"
  shows "list_subdirs fs p = []" and "list_images fs p = []"
  using assms
  by (simp_all add: list_subdirs_def list_subdirs_try_def list_images_def list_images_try_def iterdir_def)

lemma list_subdirs_stat_error:
  assumes "listdir fs (pstr p) = Inr names" and "n \<in> set names"
    and "is_dir_at fs (child_str fs p n) = Inl e"
  shows "list_subdirs fs p = []"
proof -
  let ?mk = "make_child fs p"
  have m: "?mk n \<in> set (map ?mk names)" using assms(2) by simp
  have "is_dir fs (?mk n) = Inl e"
    using assms(3) by (simp add: is_dir_def pstr_make_child)
  from filter_try_err [of "?mk n" "map ?mk names" "is_dir fs" e, OF m this]
  obtain e' where "filter_try (is_dir fs) (map ?mk names) = Inl e'" ..
  then show ?thesis
    by (simp add: list_subdirs_def list_subdirs_try_def iterdir_ok [OF assms(1)])
qed

lemma list_images_stat_error:
  assumes "listdir fs (pstr p) = Inr names" and "n \<in> set names"
    and "is_file_at fs (child_str fs p n) = Inl e"
  shows "list_images fs p = []"
proof -
  let ?mk = "make_child fs p"
  let ?xs = "map ?mk (sort_key (str_lower fs) names)"
  have m: "?mk n \<in> set ?xs" using assms(2) by simp
  have "is_image_file fs (?mk n) = Inl e"
    using assms(3) by (simp add: is_image_file_def is_file_def pstr_make_child)
  from filter_try_err [of "?mk n" ?xs "is_image_file fs" e, OF m this]
  obtain e' where "filter_try (is_image_file fs) ?xs = Inl e'" ..
  then show ?thesis
    by (simp add: list_images_def list_images_try_def iterdir_ok [OF assms(1)] sort_children)
qed

lemma two_sorted_unique:
  assumes "mset ns = {#x, y#}" and "sorted (map k ns)" and "k x < k y"
  shows "ns = [x, y]"
proof -
  from assms(1) have "length ns = Suc (Suc 0)"
    using size_mset [of ns] by simp
  then obtain a b where ns: "ns = [a, b]"
    by (cases ns; simp; cases "tl ns"; auto)
  with assms(1) have "(a = x \<and> b = y) \<or> (a = y \<and> b = x)"
    by (auto simp: add_eq_conv_ex)
  with assms(2,3) ns show ?thesis by auto
qed

lemma example_keys:
  "str_lower fs ''a.jpg'' = ''a.jpg''" "str_lower fs ''b.PNG'' = ''b.png''"
  "str_lower fs (suffix ''b.PNG'') = ''.png''" "str_lower fs (suffix ''a.jpg'') = ''.jpg''"
  "str_lower fs (suffix ''c.txt'') = ''.txt''"
  by (simp_all add: str_lower_def is_ascii_def ascii_lower_def lower_char_def suffix_def)

lemma ex_filter:
  assumes m: "mset names = {#''b.PNG'', ''a.jpg'', ''c.txt''#}"
    and f: "\<forall>n\<in>set names. is_file_at fs (child_str fs p n) = Inr True"
  shows "filter_mset (\<lambda>n. is_file_at fs (child_str fs p n) = Inr True \<and> str_lower fs (suffix n) \<in> SUPPORTED_EXT) (mset names)
     = {#''b.PNG'', ''a.jpg''#}"
proof -
  have s: "set names = {''b.PNG'', ''a.jpg'', ''c.txt''}"
    using m set_mset_mset [of names] by auto
  have 1: "str_lower fs (suffix ''b.PNG'') \<in> SUPPORTED_EXT"
    by (simp add: example_keys SUPPORTED_EXT_def)
  have 2: "str_lower fs (suffix ''a.jpg'') \<in> SUPPORTED_EXT"
    by (simp add: example_keys SUPPORTED_EXT_def)
  have 3: "str_lower fs (suffix ''c.txt'') \<notin> SUPPORTED_EXT"
    by (simp add: example_keys SUPPORTED_EXT_def)
  have 4: "is_file_at fs (child_str fs p ''b.PNG'') = Inr True" "is_file_at fs (child_str fs p ''a.jpg'') = Inr True"
    using f s by simp_all
  show ?thesis
    unfolding m by (simp add: 1 2 3 4)
qed

text \<open>
  C2, as amended: when the directory can be listed and every entry examined,
  \<open>list_images\<close> returns the path strings of exactly the listed names that are regular
  files and whose suffix, lowercased, is supported (with their multiplicities), ordered by
  lowercased name; a directory holding \<open>b.PNG\<close>, \<open>a.jpg\<close> and \<open>c.txt\<close>, listed in any
  order, yields \<open>a.jpg\<close> then \<open>b.PNG\<close>. When listing the directory or examining one of
  its entries raises, the result is the empty list.
\<close>

theorem list_images_spec:
  "(listdir fs (pstr p) = Inr names \<and> (\<forall>n\<in>set names. \<exists>b. is_file_at fs (child_str fs p n) = Inr b) \<longrightarrow>
      (\<exists>ns. list_images fs p = map (child_str fs p) ns
         \<and> mset ns = filter_mset (\<lambda>n. is_file_at fs (child_str fs p n) = Inr True
                                     \<and> str_lower fs (suffix n) \<in> SUPPORTED_EXT) (mset names)
         \<and> sorted (map (str_lower fs) ns)))
   \<and> (listdir fs (pstr p) = Inr names \<and> mset names = {#''b.PNG'', ''a.jpg'', ''c.txt''#}
        \<and> (\<forall>n\<in>set names. is_file_at fs (child_str fs p n) = Inr True) \<longrightarrow>
      list_images fs p = [child_str fs p ''a.jpg'', child_str fs p ''b.PNG''])
   \<and> (listdir fs (pstr p) = Inr names \<and> n \<in> set names \<and> is_file_at fs (child_str fs p n) = Inl e \<longrightarrow>
        list_images fs p = [])
   \<and> (listdir fs (pstr p) = Inl e \<longrightarrow> list_images fs p = [])"
proof -
  let ?Q = "\<lambda>n. is_file_at fs (child_str fs p n) = Inr True \<and> str_lower fs (suffix n) \<in> SUPPORTED_EXT"
  let ?ns = "filter ?Q (sort_key (str_lower fs) names)"
  have gen: "list_images fs p = map (child_str fs p) ?ns \<and> mset ?ns = filter_mset ?Q (mset names)
      \<and> sorted (map (str_lower fs) ?ns)"
    if "listdir fs (pstr p) = Inr names" "\<forall>n\<in>set names. \<exists>b. is_file_at fs (child_str fs p n) = Inr b"
  proof -
    have "sorted (map (str_lower fs) (sort_key (str_lower fs) names))"
      by (rule sorted_sort_key)
    then have "sorted (map (str_lower fs) ?ns)"
      by (rule sorted_filter)
    then show ?thesis
      using list_images_ok [OF that] by simp
  qed
  have ex: "list_images fs p = [child_str fs p ''a.jpg'', child_str fs p ''b.PNG'']"
    if l: "listdir fs (pstr p) = Inr names" and m: "mset names = {#''b.PNG'', ''a.jpg'', ''c.txt''#}"
      and f: "\<forall>n\<in>set names. is_file_at fs (child_str fs p n) = Inr True"
  proof -
    from f have "\<forall>n\<in>set names. \<exists>b. is_file_at fs (child_str fs p n) = Inr b" by blast
    from gen [OF l this] have li: "list_images fs p = map (child_str fs p) ?ns"
      and ms: "mset ?ns = filter_mset ?Q (mset names)" and so: "sorted (map (str_lower fs) ?ns)"
      by simp_all
    from ms have "mset ?ns = {#''a.jpg'', ''b.PNG''#}"
      unfolding ex_filter [OF m f] by (simp only: add_mset_commute)
    from two_sorted_unique [OF this so] have "?ns = [''a.jpg'', ''b.PNG'']"
      by (simp add: example_keys)
    with li show ?thesis by simp
  qed
  show ?thesis
  proof (intro conjI impI)
    assume a: "listdir fs (pstr p) = Inr names \<and> (\<forall>n\<in>set names. \<exists>b. is_file_at fs (child_str fs p n) = Inr b)"
    show "\<exists>ns. list_images fs p = map (child_str fs p) ns \<and> mset ns = filter_mset ?Q (mset names)
      \<and> sorted (map (str_lower fs) ns)"
      by (rule exI [of _ ?ns]) (rule gen [OF conjunct1 [OF a] conjunct2 [OF a]])
  next
    assume a: "listdir fs (pstr p) = Inr names \<and> mset names = {#''b.PNG'', ''a.jpg'', ''c.txt''#}
        \<and> (\<forall>n\<in>set names. is_file_at fs (child_str fs p n) = Inr True)"
    show "list_images fs p = [child_str fs p ''a.jpg'', child_str fs p ''b.PNG'']"
      by (rule ex [OF conjunct1 [OF a] conjunct1 [OF conjunct2 [OF a]] conjunct2 [OF conjunct2 [OF a]]])
  next
    assume a: "listdir fs (pstr p) = Inr names \<and> n \<in> set names \<and> is_file_at fs (child_str fs p n) = Inl e"
    show "list_images fs p = []"
      by (rule list_images_stat_error [of fs p names n e]) (simp_all add: a)
  next
    assume "listdir fs (pstr p) = Inl e"
    then show "list_images fs p = []" by (rule list_dir_error)
  qed
qed

lemma example_paths:
  "pstr (posix_path ''pics'') = ''pics''" "has_tail (posix_path ''pics'')"
  "pstr (posix_path ''home'') = ''home''" "has_tail (posix_path ''home'')"
  "pstr (posix_path ''guarded'') = ''guarded''" "has_tail (posix_path ''guarded'')"
  "pstr (posix_path ''locked'') = ''locked''" "has_tail (posix_path ''locked'')"
  "pstr (posix_path ''cafe'') = ''cafe''" "has_tail (posix_path ''cafe'')"
  "pstr (posix_path ''/'') = ''/''" "\<not> has_tail (posix_path ''/'')"
  "pstr (posix_path ''.'') = ''.''" "\<not> has_tail (posix_path ''.'')"
  by (simp_all add: posix_path_def)

lemma example_children:
  "child_str example_fs (posix_path ''pics'') n = ''pics/'' @ n"
  "child_str example_fs (posix_path ''home'') n = ''home/'' @ n"
  "child_str example_fs (posix_path ''guarded'') n = ''guarded/'' @ n"
  "child_str example_fs (posix_path ''cafe'') n = ''cafe/'' @ n"
  "child_str example_fs (posix_path ''/'') n = ''/'' @ n"
  "child_str example_fs (posix_path ''.'') n = n"
  by (simp_all add: child_str_def make_child_def example_paths example_fs_def)

lemma example_listdir:
  "listdir example_fs ''pics'' = Inr [''b.PNG'', ''a.jpg'', ''c.txt'']"
  "listdir example_fs ''home'' = Inr [''Zoo'', ''notes.txt'', ''art'', ''.jpg'', ''x.jpeg'']"
  "listdir example_fs ''guarded'' = Inr [''a.png'', ''vault'']"
  "listdir example_fs ''/'' = Inr [''boot.png'']"
  "listdir example_fs ''.'' = Inr [''here.gif'']"
  "listdir example_fs ''cafe'' = Inr [[CHR 0xC3, CHR 0x89, CHR ''b''], [CHR 0xC3, CHR 0xA9, CHR ''a'']]"
  "listdir example_fs ''locked'' = Inl PermissionError"
  by (simp_all add: example_fs_def)

lemma example_is_file:
  "is_file_at example_fs s = (if s = ''guarded/vault'' then Inl PermissionError
      else Inr (s \<noteq> ''home/Zoo'' \<and> s \<noteq> ''home/art'' \<and> take 5 s \<noteq> ''cafe/''))"
  by (simp add: example_fs_def)

lemma example_is_dir:
  "is_dir_at example_fs s = (if s = ''guarded/vault'' then Inl PermissionError
      else Inr (s = ''home/Zoo'' \<or> s = ''home/art'' \<or> take 5 s = ''cafe/''))"
  by (simp add: example_fs_def)

theorem list_images_spec_witness:
  "listdir example_fs (pstr (posix_path ''pics'')) = Inr [''b.PNG'', ''a.jpg'', ''c.txt'']
   \<and> list_images example_fs (posix_path ''pics'') = [''pics/a.jpg'', ''pics/b.PNG'']
   \<and> list_images example_fs (posix_path ''/'') = [''/boot.png'']
   \<and> list_images example_fs (posix_path ''.'') = [''here.gif'']
   \<and> listdir example_fs (pstr (posix_path ''guarded'')) = Inr [''a.png'', ''vault'']
   \<and> is_file_at example_fs (child_str example_fs (posix_path ''guarded'') ''vault'') = Inl PermissionError
   \<and> list_images example_fs (posix_path ''guarded'') = []
   \<and> listdir example_fs (pstr (posix_path ''locked'')) = Inl PermissionError
   \<and> list_images example_fs (posix_path ''locked'') = []"
proof -
  note f = example_is_file
  have 1: "list_images example_fs (posix_path ''pics'') = [''pics/a.jpg'', ''pics/b.PNG'']"
    using list_images_spec [of example_fs "posix_path ''pics''" "[''b.PNG'', ''a.jpg'', ''c.txt'']"]
    by (simp add: example_paths example_children example_listdir f)
  have 2: "list_images example_fs (posix_path ''/'') = [''/boot.png'']"
    using list_images_ok [of example_fs "posix_path ''/''" "[''boot.png'']"]
    by (auto simp: example_paths example_children example_listdir f str_lower_def is_ascii_def
        ascii_lower_def lower_char_def suffix_def SUPPORTED_EXT_def)
  have 3: "list_images example_fs (posix_path ''.'') = [''here.gif'']"
    using list_images_ok [of example_fs "posix_path ''.''" "[''here.gif'']"]
    by (auto simp: example_paths example_children example_listdir f str_lower_def is_ascii_def
        ascii_lower_def lower_char_def suffix_def SUPPORTED_EXT_def)
  have 4: "list_images example_fs (posix_path ''guarded'') = []"
    using list_images_spec [of example_fs "posix_path ''guarded''" "[''a.png'', ''vault'']" "''vault''" PermissionError]
    by (simp add: example_paths example_children example_listdir f)
  have 5: "list_images example_fs (posix_path ''locked'') = []"
    using list_images_spec [of example_fs "posix_path ''locked''" "[]" "[]" PermissionError]
    by (simp add: example_paths example_listdir)
  show ?thesis
    by (simp add: 1 2 3 4 5 example_paths example_children example_listdir f)
qed

text \<open>
  C2 as it was stated fails in \<open>guarded\<close>: the directory can be listed, \<open>a.png\<close> in it is a
  regular file with a supported extension, and yet \<open>list_images\<close> returns nothing,
  because examining the other entry raises.
\<close>

theorem list_images_exact_counterexample:
  "listdir example_fs (pstr (posix_path ''guarded'')) = Inr [''a.png'', ''vault'']
   \<and> is_file_at example_fs (child_str example_fs (posix_path ''guarded'') ''a.png'') = Inr True
   \<and> str_lower example_fs (suffix ''a.png'') \<in> SUPPORTED_EXT
   \<and> child_str example_fs (posix_path ''guarded'') ''a.png'' \<notin> set (list_images example_fs (posix_path ''guarded''))
   \<and> list_images example_fs (posix_path ''guarded'') = []"
proof -
  have "list_images example_fs (posix_path ''guarded'') = []"
    by (rule list_images_stat_error [of example_fs "posix_path ''guarded''" "[''a.png'', ''vault'']" "''vault''" PermissionError])
       (simp_all add: example_paths example_children example_listdir example_is_file)
  then show ?thesis
    by (simp add: example_paths example_children example_listdir example_is_file str_lower_def
        is_ascii_def ascii_lower_def lower_char_def suffix_def SUPPORTED_EXT_def)
qed

lemma filter_try_sound:
  "filter_try P xs = Inr ys \<Longrightarrow> y \<in> set ys \<Longrightarrow> y \<in> set xs \<and> P y = Inr True"
  by (induction xs arbitrary: ys) (auto split: sum.splits if_splits)

lemma rfind_nonneg_iff: "0 \<le> rfind c xs \<longleftrightarrow> c \<in> set xs"
  by (induction xs) (auto simp: Let_def)

lemma suffix_no_inner_dot:
  assumes "CHR ''.'' \<notin> set (tl nm)"
  shows "suffix nm = []"
proof (cases nm)
  case Nil
  then show ?thesis by (simp add: suffix_def)
next
  case (Cons x xs)
  with assms have "\<not> 0 \<le> rfind CHR ''.'' xs"
    by (simp add: rfind_nonneg_iff)
  with Cons show ?thesis
    by (simp add: suffix_def Let_def)
qed

lemma lower_char_dot: "lower_char CHR ''.'' = CHR ''.''"
  by (simp add: lower_char_def)

lemma supported_ext_shape:
  assumes "s \<in> SUPPORTED_EXT"
  shows "CHR ''.'' \<notin> set (tl s)" and "s \<noteq> []"
  using assms by (auto simp: SUPPORTED_EXT_def)

lemma dotfile_suffix:
  assumes "ascii_lower n \<in> SUPPORTED_EXT"
  shows "suffix n = []"
proof (rule suffix_no_inner_dot, rule notI)
  assume "CHR ''.'' \<in> set (tl n)"
  then have "lower_char CHR ''.'' \<in> set (map lower_char (tl n))"
    by simp
  then have "CHR ''.'' \<in> set (tl (ascii_lower n))"
    by (simp add: lower_char_dot ascii_lower_def map_tl)
  with supported_ext_shape(1) [OF assms] show False by simp
qed

lemma empty_not_supported: "str_lower fs [] \<notin> SUPPORTED_EXT"
  by (simp add: str_lower_def is_ascii_def ascii_lower_def SUPPORTED_EXT_def)

lemma list_images_members:
  assumes "s \<in> set (list_images fs p)"
  shows "\<exists>m. s = child_str fs p m \<and> is_image_file fs (make_child fs p m) = Inr True"
proof -
  from assms obtain r where r: "list_images_try fs p = Inr r" and s: "s \<in> set r"
    by (cases "list_images_try fs p") (auto simp: list_images_def)
  from r obtain names where l: "listdir fs (pstr p) = Inr names"
    by (auto simp: list_images_try_def iterdir_def split: sum.splits)
  let ?mk = "make_child fs p"
  let ?xs = "map ?mk (sort_key (str_lower fs) names)"
  from r obtain ys where ys: "filter_try (is_image_file fs) ?xs = Inr ys" and rr: "r = map pstr ys"
    by (auto simp: list_images_try_def iterdir_ok [OF l] sort_children split: sum.splits)
  from s rr obtain y where y: "y \<in> set ys" and sy: "s = pstr y" by auto
  from filter_try_sound [OF ys y] have "y \<in> set ?xs" and img: "is_image_file fs y = Inr True"
    by simp_all
  then obtain m where "y = ?mk m" by auto
  with sy img show ?thesis by (auto simp: pstr_make_child)
qed

text \<open>
  C10: a file whose whole name is a dot followed by a supported extension, in any
  letter case, has the empty suffix, is not an image file, and is absent from the result
  of \<open>list_images\<close>.
\<close>

theorem dotfile_excluded:
  "ascii_lower n \<in> SUPPORTED_EXT \<longrightarrow>
     suffix n = []
     \<and> is_image_file fs (make_child fs p n) \<noteq> Inr True
     \<and> child_str fs p n \<notin> set (list_images fs p)"
proof (intro impI conjI)
  assume a: "ascii_lower n \<in> SUPPORTED_EXT"
  show sfx: "suffix n = []" by (rule dotfile_suffix [OF a])
  show noimg: "is_image_file fs (make_child fs p n) \<noteq> Inr True"
    using empty_not_supported [of fs]
    by (auto simp: is_image_file_def pname_make_child sfx split: sum.splits)
  show "child_str fs p n \<notin> set (list_images fs p)"
  proof
    assume "child_str fs p n \<in> set (list_images fs p)"
    from list_images_members [OF this] obtain m
      where c: "child_str fs p n = child_str fs p m"
        and i: "is_image_file fs (make_child fs p m) = Inr True"
      by blast
    from child_str_inject [OF c] i noimg show False by simp
  qed
qed

theorem dotfile_excluded_witness:
  "ascii_lower ''.jpg'' \<in> SUPPORTED_EXT
   \<and> suffix ''.jpg'' = []
   \<and> ''.jpg'' \<in> set [''Zoo'', ''notes.txt'', ''art'', ''.jpg'', ''x.jpeg'']
   \<and> listdir example_fs (pstr (posix_path ''home'')) = Inr [''Zoo'', ''notes.txt'', ''art'', ''.jpg'', ''x.jpeg'']
   \<and> is_file_at example_fs ''home/.jpg'' = Inr True
   \<and> ''home/.jpg'' \<notin> set (list_images example_fs (posix_path ''home''))"
  using dotfile_excluded [of "''.jpg''" example_fs "posix_path ''home''"]
  by (simp add: example_paths example_children example_listdir example_is_file
      ascii_lower_def lower_char_def SUPPORTED_EXT_def)

text \<open>
  C6: whatever exception the body of either scanner raises, the scanner returns the empty
  list; this covers a directory that cannot be listed and an entry that cannot be
  examined. When nothing raises, \<open>list_subdirs\<close> returns exactly the listed names that are
  directories, ordered by \<^verbatim>\<open>str.lower\<close> of the name.
\<close>

theorem scanner_error_policy:
  "(list_subdirs_try fs p = Inl e \<longrightarrow> list_subdirs fs p = [])
   \<and> (list_images_try fs p = Inl e \<longrightarrow> list_images fs p = [])
   \<and> (listdir fs (pstr p) = Inl e \<longrightarrow> list_subdirs fs p = [] \<and> list_images fs p = [])
   \<and> (listdir fs (pstr p) = Inr names \<and> n \<in> set names \<and> is_dir_at fs (child_str fs p n) = Inl e \<longrightarrow>
        list_subdirs fs p = [])
   \<and> (listdir fs (pstr p) = Inr names \<and> n \<in> set names \<and> is_file_at fs (child_str fs p n) = Inl e \<longrightarrow>
        list_images fs p = [])
   \<and> (listdir fs (pstr p) = Inr names \<and> (\<forall>n\<in>set names. \<exists>b. is_dir_at fs (child_str fs p n) = Inr b) \<longrightarrow>
        (\<exists>ds. list_subdirs fs p = map (make_child fs p) ds
           \<and> mset ds = filter_mset (\<lambda>n. is_dir_at fs (child_str fs p n) = Inr True) (mset names)
           \<and> sorted (map (str_lower fs) ds)))"
proof (intro conjI impI)
  assume "list_subdirs_try fs p = Inl e"
  then show "list_subdirs fs p = []" by (simp add: list_subdirs_def)
next
  assume "list_images_try fs p = Inl e"
  then show "list_images fs p = []" by (simp add: list_images_def)
next
  assume "listdir fs (pstr p) = Inl e"
  then show "list_subdirs fs p = []" by (rule list_dir_error)
next
  assume "listdir fs (pstr p) = Inl e"
  then show "list_images fs p = []" by (rule list_dir_error)
next
  assume a: "listdir fs (pstr p) = Inr names \<and> n \<in> set names \<and> is_dir_at fs (child_str fs p n) = Inl e"
  show "list_subdirs fs p = []"
    by (rule list_subdirs_stat_error [of fs p names n e]) (simp_all add: a)
next
  assume a: "listdir fs (pstr p) = Inr names \<and> n \<in> set names \<and> is_file_at fs (child_str fs p n) = Inl e"
  show "list_images fs p = []"
    by (rule list_images_stat_error [of fs p names n e]) (simp_all add: a)
next
  assume a: "listdir fs (pstr p) = Inr names \<and> (\<forall>n\<in>set names. \<exists>b. is_dir_at fs (child_str fs p n) = Inr b)"
  let ?ds = "sort_key (str_lower fs) (filter (\<lambda>n. is_dir_at fs (child_str fs p n) = Inr True) names)"
  have "list_subdirs fs p = map (make_child fs p) ?ds"
    by (rule list_subdirs_ok [OF conjunct1 [OF a] conjunct2 [OF a]])
  moreover have "mset ?ds = filter_mset (\<lambda>n. is_dir_at fs (child_str fs p n) = Inr True) (mset names)"
    by simp
  moreover have "sorted (map (str_lower fs) ?ds)"
    by (rule sorted_sort_key)
  ultimately show "\<exists>ds. list_subdirs fs p = map (make_child fs p) ds
           \<and> mset ds = filter_mset (\<lambda>n. is_dir_at fs (child_str fs p n) = Inr True) (mset names)
           \<and> sorted (map (str_lower fs) ds)"
    by (intro exI [of _ ?ds] conjI)
qed

lemma example_lower:
  "str_lower example_fs ''Zoo'' = ''zoo''" "str_lower example_fs ''art'' = ''art''"
  "str_lower example_fs [CHR 0xC3, CHR 0x89, CHR ''b''] = [CHR 0xC3, CHR 0xA9, CHR ''b'']"
  "str_lower example_fs [CHR 0xC3, CHR 0xA9, CHR ''a''] = [CHR 0xC3, CHR 0xA9, CHR ''a'']"
  by (simp_all add: str_lower_def is_ascii_def ascii_lower_def lower_char_def example_fs_def)

theorem scanner_error_policy_witness:
  "listdir example_fs (pstr (posix_path ''locked'')) = Inl PermissionError
   \<and> list_subdirs example_fs (posix_path ''locked'') = []
   \<and> list_images example_fs (posix_path ''locked'') = []
   \<and> listdir example_fs (pstr (posix_path ''guarded'')) = Inr [''a.png'', ''vault'']
   \<and> is_dir_at example_fs ''guarded/vault'' = Inl PermissionError
   \<and> is_file_at example_fs ''guarded/vault'' = Inl PermissionError
   \<and> list_subdirs example_fs (posix_path ''guarded'') = []
   \<and> list_images example_fs (posix_path ''guarded'') = []
   \<and> map pstr (list_subdirs example_fs (posix_path ''home'')) = [''home/art'', ''home/Zoo'']
   \<and> map pname (list_subdirs example_fs (posix_path ''cafe''))
       = [[CHR 0xC3, CHR 0xA9, CHR ''a''], [CHR 0xC3, CHR 0x89, CHR ''b'']]"
proof -
  have 1: "list_subdirs example_fs (posix_path ''locked'') = [] \<and> list_images example_fs (posix_path ''locked'') = []"
    using scanner_error_policy [of example_fs "posix_path ''locked''" PermissionError "[]" "[]"]
    by (simp add: example_paths example_listdir)
  have 2: "list_subdirs example_fs (posix_path ''guarded'') = [] \<and> list_images example_fs (posix_path ''guarded'') = []"
    using scanner_error_policy [of example_fs "posix_path ''guarded''" PermissionError "[''a.png'', ''vault'']" "''vault''"]
    by (simp add: example_paths example_children example_listdir example_is_file example_is_dir)
  have 3: "map pstr (list_subdirs example_fs (posix_path ''home'')) = [''home/art'', ''home/Zoo'']"
    using list_subdirs_ok [of example_fs "posix_path ''home''" "[''Zoo'', ''notes.txt'', ''art'', ''.jpg'', ''x.jpeg'']"]
    by (auto simp: example_paths example_children example_listdir example_is_dir example_lower
        pstr_make_child)
  have l4: "listdir example_fs (pstr (posix_path ''cafe''))
      = Inr [[CHR 0xC3, CHR 0x89, CHR ''b''], [CHR 0xC3, CHR 0xA9, CHR ''a'']]"
    by (simp add: example_paths example_listdir)
  have h4: "\<forall>n\<in>set [[CHR 0xC3, CHR 0x89, CHR ''b''], [CHR 0xC3, CHR 0xA9, CHR ''a'']].
      \<exists>b. is_dir_at example_fs (child_str example_fs (posix_path ''cafe'') n) = Inr b"
    by (auto simp: example_children example_is_dir)
  have 4: "map pname (list_subdirs example_fs (posix_path ''cafe''))
       = [[CHR 0xC3, CHR 0xA9, CHR ''a''], [CHR 0xC3, CHR 0x89, CHR ''b'']]"
    unfolding list_subdirs_ok [OF l4 h4]
    by (simp add: example_children example_is_dir example_lower pname_make_child)
  show ?thesis
    by (simp add: 1 2 3 4 example_paths example_listdir example_is_file example_is_dir)
qed

section \<open>Properties of the viewer launcher\<close>

text \<open>
  C8: when starting the viewer process raises, \<open>launch_viewer\<close> goes on to
  \<open>open_system_viewer\<close> for the same path: its outcome is the outcome of that call (the
  exception of the failed start is dropped), and the calls made are the failed start
  followed by the one call of the operating system's opener.
\<close>

theorem launch_viewer_fallback:
  "popen os (viewer_argv os p) = Inl ex \<longrightarrow>
     fst (launch_viewer os p) = fst (open_system_viewer os p)
     \<and> snd (launch_viewer os p) = Popen (viewer_argv os p) # snd (open_system_viewer os p)
     \<and> (snd (open_system_viewer os p) = [Startfile p]
        \<or> snd (open_system_viewer os p) = [Popen [''open'', p]]
        \<or> snd (open_system_viewer os p) = [Popen [''xdg-open'', p]])"
  by (auto simp: launch_viewer_def open_system_viewer_def split: prod.splits)

theorem launch_viewer_fallback_witness:
  "popen example_os (viewer_argv example_os ''pics/a.jpg'') = Inl PermissionError
   \<and> launch_viewer example_os ''pics/a.jpg''
       = (Inr (), [Popen [''/usr/bin/python3'', ''/opt/gallery/main.py'', ''--view'', ''pics/a.jpg''],
                   Popen [''xdg-open'', ''pics/a.jpg'']])
   \<and> popen example_win (viewer_argv example_win ''pics/a.jpg'') = Inl FileNotFoundError
   \<and> launch_viewer example_win ''pics/a.jpg''
       = (Inl OSError, [Popen [[], ''C:/gallery/main.py'', ''--view'', ''pics/a.jpg''],
                        Startfile ''pics/a.jpg''])"
  using launch_viewer_fallback [of example_os "''pics/a.jpg''" PermissionError]
    launch_viewer_fallback [of example_win "''pics/a.jpg''" FileNotFoundError]
  by (simp add: example_os_def example_win_def viewer_argv_def launch_viewer_def
      open_system_viewer_def startswith_def)

section \<open>Properties of the thumbnail cache\<close>

lemma thumb_for_hit:
  "pil_ok \<Longrightarrow> truthy_opt (thumb_tex s p) \<Longrightarrow> thumb_for pil_ok e (s, g) p = (thumb_tex s p, s, g)"
  by (simp add: thumb_for_def)

lemma thumb_for_fail:
  "open_thumbnail e p = Inl ex \<Longrightarrow> \<not> truthy_opt (thumb_tex s p)
     \<Longrightarrow> thumb_for pil_ok e (s, g) p = (None, s, g)"
  by (simp add: thumb_for_def)

lemma thumb_for_decode:
  "pil_ok \<Longrightarrow> \<not> truthy_opt (thumb_tex s p) \<Longrightarrow> open_thumbnail e p = Inr im
     \<Longrightarrow> thumb_for pil_ok e (s, g) p =
       (Some (TagInt (Suc (last_uuid g))),
        s\<lparr>thumb_tex := (thumb_tex s)(p \<mapsto> TagInt (Suc (last_uuid g)))\<rparr>,
        snd (add_item (StaticTexture (fst (img_size im)) (snd (img_size im))
               (map (\<lambda>b. real b / 255) (img_rgba im))) (texreg s) g))"
  by (simp add: thumb_for_def pil_to_dpg_def add_item_def Let_def)

lemma thumb_for_Some:
  assumes "thumb_for pil_ok e (s, g) p = (Some h, s1, g1)"
  shows "pil_ok" and "thumb_tex s1 p = Some h" and "truthy h"
  using assms
  by (auto simp: thumb_for_def pil_to_dpg_def add_item_def Let_def
      split: if_splits sum.splits)

text \<open>
  C5: when decoding the image of a path raises, \<open>thumb_for\<close> leaves the state (the cache
  with it) and the item store as they were; for a path without a cached texture it
  returns \<open>None\<close>, and a later call in a world where the image decodes makes a new
  texture: the failure was not remembered.
\<close>

theorem decode_failure_not_cached:
  "open_thumbnail e p = Inl ex \<longrightarrow>
     snd (thumb_for pil_ok e (s, g) p) = (s, g)
     \<and> (\<not> truthy_opt (thumb_tex s p) \<longrightarrow>
          fst (thumb_for pil_ok e (s, g) p) = None
          \<and> (pil_ok \<and> open_thumbnail e2 p = Inr im \<longrightarrow>
               fst (thumb_for pil_ok e2 (snd (thumb_for pil_ok e (s, g) p)) p)
                 = Some (TagInt (Suc (last_uuid g)))))"
proof (intro impI conjI)
  assume f: "open_thumbnail e p = Inl ex"
  show st: "snd (thumb_for pil_ok e (s, g) p) = (s, g)"
    using f by (simp add: thumb_for_def)
  assume m: "\<not> truthy_opt (thumb_tex s p)"
  show "fst (thumb_for pil_ok e (s, g) p) = None"
    by (simp add: thumb_for_fail [OF f m])
  assume "pil_ok \<and> open_thumbnail e2 p = Inr im"
  then show "fst (thumb_for pil_ok e2 (snd (thumb_for pil_ok e (s, g) p)) p)
                 = Some (TagInt (Suc (last_uuid g)))"
    unfolding st using m by (simp add: thumb_for_decode)
qed

theorem decode_failure_not_cached_witness:
  "open_thumbnail example_env ''pics/b.PNG'' = Inl OSError
   \<and> \<not> truthy_opt (thumb_tex (example_state [''pics/b.PNG'']) ''pics/b.PNG'')
   \<and> open_thumbnail example_env2 ''pics/b.PNG'' = Inr \<lparr>img_size = (1, 1), img_rgba = [0, 0, 0, 255]\<rparr>
   \<and> snd (thumb_for True example_env (example_state [''pics/b.PNG''], example_dpg) ''pics/b.PNG'')
       = (example_state [''pics/b.PNG''], example_dpg)
   \<and> fst (thumb_for True example_env (example_state [''pics/b.PNG''], example_dpg) ''pics/b.PNG'') = None
   \<and> fst (thumb_for True example_env2
        (snd (thumb_for True example_env (example_state [''pics/b.PNG''], example_dpg) ''pics/b.PNG''))
        ''pics/b.PNG'') = Some (TagInt 31)"
proof -
  have h1: "open_thumbnail example_env ''pics/b.PNG'' = Inl OSError"
    by (simp add: example_env_def)
  have h2: "\<not> truthy_opt (thumb_tex (example_state [''pics/b.PNG'']) ''pics/b.PNG'')"
    by (simp add: example_state_def)
  have h3: "open_thumbnail example_env2 ''pics/b.PNG'' = Inr \<lparr>img_size = (1, 1), img_rgba = [0, 0, 0, 255]\<rparr>"
    by (simp add: example_env2_def)
  have h4: "Suc (last_uuid example_dpg) = 31"
    by (simp add: example_dpg_def)
  from decode_failure_not_cached [of example_env "''pics/b.PNG''" OSError True
      "example_state [''pics/b.PNG'']" example_dpg example_env2
      "\<lparr>img_size = (1, 1), img_rgba = [0, 0, 0, 255]\<rparr>"] h1 h2 h3
  show ?thesis unfolding h4 by blast
qed

subsection \<open>What the interface functions leave alone\<close>

lemma fst_add_item: "fst (add_item k par g) = TagInt (Suc (last_uuid g))"
  by (simp add: add_item_def Let_def)

lemma thumb_for_fields:
  assumes "thumb_for pil_ok e (s, g) q = (r, s', g')"
  shows "root_dir s' = root_dir s" and "current_dir s' = current_dir s"
    and "images_in_dir s' = images_in_dir s" and "thumb_items s' = thumb_items s"
    and "grid_table s' = grid_table s" and "grid_child s' = grid_child s"
    and "texreg s' = texreg s"
  using assms
  by (auto simp: thumb_for_def Let_def split: if_splits sum.splits prod.splits)

lemma thumb_for_keeps:
  assumes "thumb_for pil_ok e (s, g) q = (r, s', g')"
    and "thumb_tex s p = Some h" and "truthy h"
  shows "thumb_tex s' p = Some h"
  using assms
  by (auto simp: thumb_for_def Let_def split: if_splits sum.splits prod.splits)

lemma add_thumb_cell_fields:
  assumes "add_thumb_cell pil_ok e row q (s, g) = (s', g')"
  shows "root_dir s' = root_dir s" and "current_dir s' = current_dir s"
    and "images_in_dir s' = images_in_dir s"
    and "grid_table s' = grid_table s" and "grid_child s' = grid_child s"
    and "texreg s' = texreg s"
  using assms
  by (auto simp: add_thumb_cell_def Let_def split: prod.splits dest: thumb_for_fields)

lemma add_thumb_cell_keeps:
  assumes "add_thumb_cell pil_ok e row q (s, g) = (s', g')"
    and "thumb_tex s p = Some h" and "truthy h"
  shows "thumb_tex s' p = Some h"
  using assms
  by (auto simp: add_thumb_cell_def Let_def split: prod.splits dest: thumb_for_keeps)

lemma grid_loop_fields:
  assumes "grid_loop pil_ok e cols t i row ps (s, g) = (s', g')"
  shows "root_dir s' = root_dir s \<and> current_dir s' = current_dir s
    \<and> images_in_dir s' = images_in_dir s
    \<and> grid_table s' = grid_table s \<and> grid_child s' = grid_child s
    \<and> texreg s' = texreg s"
  using assms
proof (induction ps arbitrary: i row s g)
  case Nil
  then show ?case by simp
next
  case (Cons q ps)
  obtain row1 g1 where r: "(if i mod cols = 0 then (let (r, g1) = add_item TableRow t g in (Some r, g1))
             else (row, g)) = (row1, g1)"
    by (cases "(if i mod cols = 0 then (let (r, g1) = add_item TableRow t g in (Some r, g1))
             else (row, g))") auto
  obtain s2 g2 where c: "add_thumb_cell pil_ok e (case row1 of None \<Rightarrow> t | Some r \<Rightarrow> r) q (s, g1) = (s2, g2)"
    by (cases "add_thumb_cell pil_ok e (case row1 of None \<Rightarrow> t | Some r \<Rightarrow> r) q (s, g1)") auto
  from Cons.prems have "grid_loop pil_ok e cols t (i + 1) row1 ps (s2, g2) = (s', g')"
    by (simp add: r c)
  from Cons.IH [OF this] add_thumb_cell_fields [OF c] show ?case by simp
qed

lemma grid_loop_keeps:
  assumes "grid_loop pil_ok e cols t i row ps (s, g) = (s', g')"
    and "thumb_tex s p = Some h" and "truthy h"
  shows "thumb_tex s' p = Some h"
  using assms
proof (induction ps arbitrary: i row s g)
  case Nil
  then show ?case by simp
next
  case (Cons q ps)
  obtain row1 g1 where r: "(if i mod cols = 0 then (let (r, g1) = add_item TableRow t g in (Some r, g1))
             else (row, g)) = (row1, g1)"
    by (cases "(if i mod cols = 0 then (let (r, g1) = add_item TableRow t g in (Some r, g1))
             else (row, g))") auto
  obtain s2 g2 where c: "add_thumb_cell pil_ok e (case row1 of None \<Rightarrow> t | Some r \<Rightarrow> r) q (s, g1) = (s2, g2)"
    by (cases "add_thumb_cell pil_ok e (case row1 of None \<Rightarrow> t | Some r \<Rightarrow> r) q (s, g1)") auto
  from Cons.prems(1) have l: "grid_loop pil_ok e cols t (i + 1) row1 ps (s2, g2) = (s', g')"
    by (simp add: r c)
  from add_thumb_cell_keeps [OF c Cons.prems(2,3)] have "thumb_tex s2 p = Some h" .
  from Cons.IH [OF l this Cons.prems(3)] show ?case .
qed

lemma clear_grid_items_fields:
  assumes "clear_grid_items (s, g) = (s', g')"
  shows "root_dir s' = root_dir s" and "current_dir s' = current_dir s"
    and "images_in_dir s' = images_in_dir s" and "thumb_tex s' = thumb_tex s"
    and "grid_child s' = grid_child s" and "texreg s' = texreg s"
    and "thumb_items s' = []"
  using assms
  by (auto simp: clear_grid_items_def Let_def split: option.splits if_splits)

lemma build_thumbnail_grid_fields:
  assumes "build_thumbnail_grid pil_ok e (s, g) = (s', g')"
  shows "root_dir s' = root_dir s \<and> current_dir s' = current_dir s
    \<and> images_in_dir s' = images_in_dir s
    \<and> grid_child s' = grid_child s \<and> texreg s' = texreg s"
proof -
  obtain s1 g1 where c: "clear_grid_items (s, g) = (s1, g1)"
    by (cases "clear_grid_items (s, g)") auto
  note f = clear_grid_items_fields [OF c]
  let ?cols = "compute_columns (available_grid_width e s1)"
  let ?par = "case grid_child s1 of None \<Rightarrow> TagInt 0 | Some gc \<Rightarrow> gc"
  let ?t = "fst (add_item Table ?par g1)"
  let ?g3 = "add_table_columns (nat ?cols) ?t (snd (add_item Table ?par g1))"
  show ?thesis
  proof (cases "images_in_dir s1 = []")
    case True
    with assms c show ?thesis
      by (auto simp: build_thumbnail_grid_def Let_def f split: prod.splits)
  next
    case False
    with assms c have "grid_loop pil_ok e ?cols ?t 0 None (images_in_dir s1)
        (s1\<lparr>grid_table := Some ?t\<rparr>, ?g3) = (s', g')"
      by (simp add: build_thumbnail_grid_def Let_def case_prod_beta)
    from grid_loop_fields [OF this] show ?thesis by (simp add: f)
  qed
qed

lemma build_thumbnail_grid_keeps:
  assumes "build_thumbnail_grid pil_ok e (s, g) = (s', g')"
    and "thumb_tex s p = Some h" and "truthy h"
  shows "thumb_tex s' p = Some h"
proof -
  obtain s1 g1 where c: "clear_grid_items (s, g) = (s1, g1)"
    by (cases "clear_grid_items (s, g)") auto
  note f = clear_grid_items_fields [OF c]
  let ?cols = "compute_columns (available_grid_width e s1)"
  let ?par = "case grid_child s1 of None \<Rightarrow> TagInt 0 | Some gc \<Rightarrow> gc"
  let ?t = "fst (add_item Table ?par g1)"
  let ?g3 = "add_table_columns (nat ?cols) ?t (snd (add_item Table ?par g1))"
  show ?thesis
  proof (cases "images_in_dir s1 = []")
    case True
    with assms c show ?thesis
      by (auto simp: build_thumbnail_grid_def Let_def f split: prod.splits)
  next
    case False
    with assms c have "grid_loop pil_ok e ?cols ?t 0 None (images_in_dir s1)
        (s1\<lparr>grid_table := Some ?t\<rparr>, ?g3) = (s', g')"
      by (simp add: build_thumbnail_grid_def Let_def case_prod_beta)
    from grid_loop_keeps [OF this _ assms(3), of p] assms(2) show ?thesis by (simp add: f)
  qed
qed

lemma resize_callback_cases:
  "resize_callback pil_ok e app_data sg = sg
   \<or> (\<exists>w h. resize_callback pil_ok e app_data sg
         = build_thumbnail_grid pil_ok e (fst sg, (snd sg)\<lparr>main_window_size := (w, h - 30)\<rparr>))"
  by (auto simp: resize_callback_def split: sum.splits)

lemma build_fields_fst:
  "root_dir (fst (build_thumbnail_grid pil_ok e (s, g))) = root_dir s"
  "current_dir (fst (build_thumbnail_grid pil_ok e (s, g))) = current_dir s"
  "images_in_dir (fst (build_thumbnail_grid pil_ok e (s, g))) = images_in_dir s"
  using build_thumbnail_grid_fields [of pil_ok e s g
      "fst (build_thumbnail_grid pil_ok e (s, g))" "snd (build_thumbnail_grid pil_ok e (s, g))"]
  by simp_all

lemma build_keeps_fst:
  "thumb_tex s p = Some h \<Longrightarrow> truthy h
    \<Longrightarrow> thumb_tex (fst (build_thumbnail_grid pil_ok e (s, g))) p = Some h"
  using build_thumbnail_grid_keeps [of pil_ok e s g
      "fst (build_thumbnail_grid pil_ok e (s, g))" "snd (build_thumbnail_grid pil_ok e (s, g))" p h]
  by simp

lemma rebuild_sidebar_tree_fst: "fst (rebuild_sidebar_tree e fs (s, g)) = s"
  by (simp add: rebuild_sidebar_tree_def Let_def)

lemma handle_keeps:
  assumes "thumb_tex (fst sg) p = Some h" and "truthy h"
  shows "thumb_tex (fst (handle pil_ok ev sg)) p = Some h"
proof (cases ev)
  case (RootChosen e fs q)
  obtain s g where sg: "sg = (s, g)" by (cases sg)
  let ?sg1 = "load_directory_images fs q (s\<lparr>root_dir := q\<rparr>, g)"
  obtain s2 g2 where r: "rebuild_sidebar_tree e fs ?sg1 = (s2, g2)"
    by (cases "rebuild_sidebar_tree e fs ?sg1") auto
  have "s2 = fst ?sg1"
    using rebuild_sidebar_tree_fst [of e fs "fst ?sg1" "snd ?sg1"] r by simp
  with assms sg have "thumb_tex s2 p = Some h"
    by (simp add: load_directory_images_def)
  from build_keeps_fst [OF this assms(2)] RootChosen sg r show ?thesis
    by (simp add: set_root_directory_def)
next
  case (FolderClicked e fs q)
  obtain s g where sg: "sg = (s, g)" by (cases sg)
  obtain s1 g1 where l: "load_directory_images fs q (s, g) = (s1, g1)"
    by (cases "load_directory_images fs q (s, g)") auto
  with assms sg have "thumb_tex s1 p = Some h"
    by (auto simp: load_directory_images_def)
  from build_keeps_fst [OF this assms(2)] FolderClicked sg l show ?thesis
    by (simp add: on_folder_click_def)
next
  case (Resized e app_data)
  obtain s g where sg: "sg = (s, g)" by (cases sg)
  from resize_callback_cases [of pil_ok e app_data sg] assms sg Resized
  show ?thesis
    by (auto simp: build_keeps_fst)
next
  case (WidthChanged e)
  obtain s g where sg: "sg = (s, g)" by (cases sg)
  with assms WidthChanged show ?thesis
    by (simp add: build_keeps_fst)
next
  case (ThumbRequested e q)
  obtain s g where sg: "sg = (s, g)" by (cases sg)
  obtain r s' g' where t: "thumb_for pil_ok e (s, g) q = (r, s', g')"
    by (cases "thumb_for pil_ok e (s, g) q") auto
  from thumb_for_keeps [OF t] assms sg ThumbRequested t show ?thesis
    by simp
qed

lemma run_keeps:
  assumes "thumb_tex (fst sg) p = Some h" and "truthy h"
  shows "thumb_tex (fst (run pil_ok evs sg)) p = Some h"
  using assms(1)
proof (induction evs arbitrary: sg)
  case Nil
  then show ?case by (simp add: run_def)
next
  case (Cons ev evs)
  from handle_keeps [OF Cons.prems assms(2)]
  have "thumb_tex (fst (handle pil_ok ev sg)) p = Some h" .
  from Cons.IH [OF this] show ?case by (simp add: run_def)
qed

text \<open>
  C4: once \<open>thumb_for\<close> has returned a texture handle for a path, then after any further
  events of the program a call for that path returns the same handle and leaves the
  state and the item store as they are, whatever the imaging library would answer: the
  image is not decoded again and no texture is added.
\<close>

theorem cached_thumbnail_reused:
  "thumb_for pil_ok e (s, g) p = (Some h, s1, g1) \<longrightarrow>
     thumb_for pil_ok e' (run pil_ok evs (s1, g1)) p = (Some h, run pil_ok evs (s1, g1))"
proof
  assume a: "thumb_for pil_ok e (s, g) p = (Some h, s1, g1)"
  note t = thumb_for_Some [OF a]
  let ?sg = "run pil_ok evs (s1, g1)"
  have "thumb_tex (fst ?sg) p = Some h"
    by (rule run_keeps) (simp_all add: t)
  with t(1,3) have "thumb_for pil_ok e' (fst ?sg, snd ?sg) p = (Some h, fst ?sg, snd ?sg)"
    using thumb_for_hit [of pil_ok "fst ?sg" p e' "snd ?sg"] by simp
  then show "thumb_for pil_ok e' ?sg p = (Some h, ?sg)" by simp
qed

theorem cached_thumbnail_reused_witness:
  "thumb_for True example_env (example_state [''pics/a.jpg''], example_dpg) ''pics/a.jpg''
     = (Some (TagInt 31),
        snd (thumb_for True example_env (example_state [''pics/a.jpg''], example_dpg) ''pics/a.jpg''))
   \<and> thumb_for True blind_env
        (run True [Resized blind_env (PyList [PyInt 900, PyInt 700]), ThumbRequested example_env2 ''pics/b.PNG'']
           (snd (thumb_for True example_env (example_state [''pics/a.jpg''], example_dpg) ''pics/a.jpg'')))
        ''pics/a.jpg''
     = (Some (TagInt 31),
        run True [Resized blind_env (PyList [PyInt 900, PyInt 700]), ThumbRequested example_env2 ''pics/b.PNG'']
           (snd (thumb_for True example_env (example_state [''pics/a.jpg''], example_dpg) ''pics/a.jpg'')))"
proof -
  let ?X = "thumb_for True example_env (example_state [''pics/a.jpg''], example_dpg) ''pics/a.jpg''"
  have "fst ?X = Some (TagInt 31)"
    by (simp add: thumb_for_def example_env_def example_state_def example_dpg_def
        pil_to_dpg_def add_item_def Let_def)
  then have h: "?X = (Some (TagInt 31), fst (snd ?X), snd (snd ?X))"
    by (metis prod.collapse)
  from cached_thumbnail_reused [of True example_env "example_state [''pics/a.jpg'']" example_dpg
      "''pics/a.jpg''" "TagInt 31" "fst (snd ?X)" "snd (snd ?X)" blind_env
      "[Resized blind_env (PyList [PyInt 900, PyInt 700]), ThumbRequested example_env2 ''pics/b.PNG'']"] h
  show ?thesis by simp
qed

text \<open>
  C9: a resize event either returns at once (when \<open>app_data\<close> does not hold two integers)
  or records the window size and runs \<open>build_thumbnail_grid\<close>; in both cases the current
  directory, the stored image list and the root directory are as before. Neither function
  is handed the file system, so no directory is scanned.
\<close>

theorem resize_keeps_directory:
  "current_dir (fst (resize_callback pil_ok e app_data sg)) = current_dir (fst sg)
   \<and> images_in_dir (fst (resize_callback pil_ok e app_data sg)) = images_in_dir (fst sg)
   \<and> root_dir (fst (resize_callback pil_ok e app_data sg)) = root_dir (fst sg)
   \<and> (resize_args app_data = Inr (w, h) \<longrightarrow>
        resize_callback pil_ok e app_data sg
          = build_thumbnail_grid pil_ok e (fst sg, (snd sg)\<lparr>main_window_size := (w, h - 30)\<rparr>))
   \<and> (resize_args app_data = Inl ex \<longrightarrow> resize_callback pil_ok e app_data sg = sg)"
proof -
  have "current_dir (fst (resize_callback pil_ok e app_data sg)) = current_dir (fst sg)
   \<and> images_in_dir (fst (resize_callback pil_ok e app_data sg)) = images_in_dir (fst sg)
   \<and> root_dir (fst (resize_callback pil_ok e app_data sg)) = root_dir (fst sg)"
    using resize_callback_cases [of pil_ok e app_data sg]
    by (auto simp: build_fields_fst)
  then show ?thesis
    by (simp add: resize_callback_def)
qed

theorem resize_keeps_directory_witness:
  "resize_args (PyList [PyInt 900, PyInt 700]) = Inr (900, 700)
   \<and> resize_args PyNone = Inl TypeError
   \<and> current_dir (fst (resize_callback True example_env (PyList [PyInt 900, PyInt 700])
        (example_state [''pics/a.jpg'', ''pics/b.PNG''], example_dpg))) = ''pics''
   \<and> images_in_dir (fst (resize_callback True example_env (PyList [PyInt 900, PyInt 700])
        (example_state [''pics/a.jpg'', ''pics/b.PNG''], example_dpg))) = [''pics/a.jpg'', ''pics/b.PNG'']
   \<and> main_window_size (snd (resize_callback True example_env (PyList [PyInt 900, PyInt 700])
        (example_state [''pics/a.jpg'', ''pics/b.PNG''], example_dpg))) = (900, 670)
   \<and> resize_callback True example_env PyNone (example_state [], example_dpg) = (example_state [], example_dpg)"
proof -
  have a: "resize_args (PyList [PyInt 900, PyInt 700]) = Inr (900, 700)"
    by (simp add: resize_args_def)
  have b: "resize_args PyNone = Inl TypeError"
    by (simp add: resize_args_def)
  let ?sg = "(example_state [''pics/a.jpg'', ''pics/b.PNG''], example_dpg)"
  have c: "main_window_size (snd (build_thumbnail_grid True example_env
      (fst ?sg, (snd ?sg)\<lparr>main_window_size := (900, 700 - 30)\<rparr>))) = (900, 670)"
    by (simp add: build_thumbnail_grid_def clear_grid_items_def example_state_def example_dpg_def
        example_env_def available_grid_width_def compute_columns_def THUMB_SIZE_def THUMB_PADDING_def
        add_item_def add_thumb_cell_def thumb_for_def pil_to_dpg_def bind_item_handler_registry_def
        Let_def numeral_2_eq_2)
  let ?R = "resize_callback True example_env (PyList [PyInt 900, PyInt 700]) ?sg"
  note r = resize_keeps_directory [of True example_env "PyList [PyInt 900, PyInt 700]" ?sg 900 700 TypeError]
  from r have "current_dir (fst ?R) = current_dir (fst ?sg)" by blast
  then have d1: "current_dir (fst ?R) = ''pics''" by (simp add: example_state_def)
  from r have "images_in_dir (fst ?R) = images_in_dir (fst ?sg)" by blast
  then have d2: "images_in_dir (fst ?R) = [''pics/a.jpg'', ''pics/b.PNG'']" by (simp add: example_state_def)
  from r a have "?R = build_thumbnail_grid True example_env
      (fst ?sg, (snd ?sg)\<lparr>main_window_size := (900, 700 - 30)\<rparr>)" by blast
  with c have d3: "main_window_size (snd ?R) = (900, 670)" by simp
  from resize_keeps_directory [of True example_env PyNone "(example_state [], example_dpg)" 0 0 TypeError] b
  have d4: "resize_callback True example_env PyNone (example_state [], example_dpg) = (example_state [], example_dpg)"
    by blast
  from a b d1 d2 d3 d4 show ?thesis by blast
qed

section \<open>Properties of the grid\<close>

lemma kids_append: "kids P (xs @ ys) t = kids P xs t @ kids P ys t"
  by (simp add: kids_def)

lemma kids_Nil: "kids P [] t = []"
  by (simp add: kids_def)

lemma kids_Cons:
  "kids P ((i, it) # xs) t = (if iparent it = t \<and> P (ikind it) then i # kids P xs t else kids P xs t)"
  by (simp add: kids_def)

lemma handler_paths_append: "handler_paths (xs @ ys) r = handler_paths xs r @ handler_paths ys r"
  by (simp add: handler_paths_def)

lemma handler_paths_Nil: "handler_paths [] r = []"
  by (simp add: handler_paths_def)

lemma handler_paths_Cons:
  "handler_paths ((i, it) # xs) r =
     (if iparent it = r then handler_path (ikind it) else []) @ handler_paths xs r"
  by (simp add: handler_paths_def)

lemma registries_of_append: "registries_of (bs @ cs) b = registries_of bs b @ registries_of cs b"
  by (simp add: registries_of_def)

lemma tag_le_mono: "tag_le t n \<Longrightarrow> n \<le> m \<Longrightarrow> tag_le t m"
  by (cases t) auto

lemma not_tag_le_fresh: "tag_le t n \<Longrightarrow> n < k \<Longrightarrow> t \<noteq> TagInt k"
  by (cases t) auto

lemma items_ok_mono: "items_ok n xs \<Longrightarrow> n \<le> m \<Longrightarrow> items_ok m xs"
  by (auto simp: items_ok_def list_all_iff intro: tag_le_mono)

lemma bindings_ok_mono: "bindings_ok n xs \<Longrightarrow> n \<le> m \<Longrightarrow> bindings_ok m xs"
  by (auto simp: bindings_ok_def list_all_iff intro: tag_le_mono)

lemma items_ok_append: "items_ok n (xs @ ys) \<longleftrightarrow> items_ok n xs \<and> items_ok n ys"
  by (simp add: items_ok_def)

lemma kids_fresh:
  assumes "items_ok n xs" and "n < k"
  shows "kids P xs (TagInt k) = []"
proof -
  have "\<And>i it. (i, it) \<in> set xs \<Longrightarrow> iparent it \<noteq> TagInt k"
    using assms by (auto simp: items_ok_def list_all_iff dest: not_tag_le_fresh)
  then show ?thesis
    by (auto simp: kids_def filter_empty_conv)
qed

lemma kids_ids_ok:
  assumes "items_ok n xs" and "i \<in> set (kids P xs t)"
  shows "tag_le i n"
  using assms by (auto simp: items_ok_def list_all_iff kids_def)

lemma handler_paths_fresh:
  assumes "items_ok n xs" and "n < k"
  shows "handler_paths xs (TagInt k) = []"
proof -
  have "\<And>i it. (i, it) \<in> set xs \<Longrightarrow> iparent it \<noteq> TagInt k"
    using assms by (auto simp: items_ok_def list_all_iff dest: not_tag_le_fresh)
  then show ?thesis
    by (auto simp: handler_paths_def)
qed

lemma registries_of_fresh:
  assumes "bindings_ok n bs" and "n < k"
  shows "registries_of bs (TagInt k) = []"
proof -
  have "\<And>b r. (b, r) \<in> set bs \<Longrightarrow> b \<noteq> TagInt k"
    using assms by (auto simp: bindings_ok_def list_all_iff dest: not_tag_le_fresh)
  then show ?thesis
    by (auto simp: registries_of_def filter_empty_conv)
qed

lemma registries_ok:
  assumes "bindings_ok n bs" and "r \<in> set (registries_of bs b)"
  shows "tag_le r n"
  using assms by (auto simp: bindings_ok_def list_all_iff registries_of_def)

lemma thumb_for_store:
  assumes "thumb_for pil_ok e (s, g) p = (r, s', g')"
  shows "g' = g \<or> (\<exists>w h d. g' = snd (add_item (StaticTexture w h d) (texreg s) g))"
  using assms
  by (auto simp: thumb_for_def Let_def split: if_splits sum.splits prod.splits)
     (metis snd_conv)

lemma add_thumb_cell_shape:
  assumes "add_thumb_cell pil_ok e row p (s, g) = (s', g')"
  shows "\<exists>texs m B.
      items g' = items g @ (TagInt (Suc (last_uuid g)), \<lparr>ikind = TableCell, iparent = row\<rparr>) # texs
                   @ cell_tail e p (TagInt (Suc (last_uuid g))) B m
      \<and> bindings g' = bindings g @ [(TagInt (Suc (Suc m)), TagInt (Suc (Suc (Suc m))))]
      \<and> last_uuid g' = Suc (Suc (Suc (Suc (Suc m))))
      \<and> is_button B
      \<and> (texs = [] \<and> m = Suc (last_uuid g)
          \<or> (\<exists>w h d. texs = [(TagInt (Suc (Suc (last_uuid g))), \<lparr>ikind = StaticTexture w h d, iparent = texreg s\<rparr>)]
                \<and> m = Suc (Suc (last_uuid g))))"
proof -
  let ?g1 = "snd (add_item TableCell row g)"
  obtain tex s2 g2 where t: "thumb_for pil_ok e (s, ?g1) p = (tex, s2, g2)"
    by (cases "thumb_for pil_ok e (s, ?g1) p") auto
  let ?B = "if truthy_opt tex then ImageButton (the tex) else Button ''Open'' None"
  let ?m = "last_uuid g2"
  have g': "g' = g2\<lparr>last_uuid := Suc (Suc (Suc (Suc (Suc ?m)))),
                      items := items g2 @ cell_tail e p (TagInt (Suc (last_uuid g))) ?B ?m,
                      bindings := bindings g2 @ [(TagInt (Suc (Suc ?m)), TagInt (Suc (Suc (Suc ?m))))]\<rparr>"
    using assms t
    by (auto simp: add_thumb_cell_def add_item_def Let_def cell_tail_def
        bind_item_handler_registry_def split: prod.splits)
  have B: "is_button ?B" by simp
  from thumb_for_store [OF t] show ?thesis
  proof
    assume "g2 = ?g1"
    then have "items g' = items g @ (TagInt (Suc (last_uuid g)), \<lparr>ikind = TableCell, iparent = row\<rparr>) # []
                   @ cell_tail e p (TagInt (Suc (last_uuid g))) ?B (Suc (last_uuid g))"
      and "bindings g' = bindings g @ [(TagInt (Suc (Suc (Suc (last_uuid g)))), TagInt (Suc (Suc (Suc (Suc (last_uuid g))))))]"
      and "last_uuid g' = Suc (Suc (Suc (Suc (Suc (Suc (last_uuid g))))))"
      by (simp_all add: g' add_item_def Let_def)
    with B show ?thesis by blast
  next
    assume "\<exists>w h d. g2 = snd (add_item (StaticTexture w h d) (texreg s) ?g1)"
    then obtain w h d where g2: "g2 = snd (add_item (StaticTexture w h d) (texreg s) ?g1)"
      by blast
    let ?tx = "[(TagInt (Suc (Suc (last_uuid g))), \<lparr>ikind = StaticTexture w h d, iparent = texreg s\<rparr>)]"
    have "items g' = items g @ (TagInt (Suc (last_uuid g)), \<lparr>ikind = TableCell, iparent = row\<rparr>) # ?tx
                   @ cell_tail e p (TagInt (Suc (last_uuid g))) ?B (Suc (Suc (last_uuid g)))"
      and "bindings g' = bindings g @ [(TagInt (Suc (Suc (Suc (Suc (last_uuid g))))), TagInt (Suc (Suc (Suc (Suc (Suc (last_uuid g)))))))]"
      and "last_uuid g' = Suc (Suc (Suc (Suc (Suc (Suc (Suc (last_uuid g)))))))"
      by (simp_all add: g' g2 add_item_def Let_def)
    with B show ?thesis by blast
  qed
qed

lemma concat_map_cong:
  "(\<And>x. x \<in> set xs \<Longrightarrow> f x = h x) \<Longrightarrow> concat (map f xs) = concat (map h xs)"
  by (induction xs) auto

lemma add_thumb_cell_view:
  assumes a: "add_thumb_cell pil_ok e row p (s, g) = (s', g')"
    and ok: "items_ok (last_uuid g) (items g)" "bindings_ok (last_uuid g) (bindings g)"
      "tag_le (texreg s) (last_uuid g)" "tag_le row (last_uuid g)"
  shows "items_ok (last_uuid g') (items g')"
    and "bindings_ok (last_uuid g') (bindings g')"
    and "last_uuid g \<le> last_uuid g'"
    and "rows_of (items g') t = rows_of (items g) t"
    and "cells_of (items g') r = cells_of (items g) r @ (if r = row then [TagInt (Suc (last_uuid g))] else [])"
    and "tag_le c' (last_uuid g) \<Longrightarrow> cell_targets g' c' = cell_targets g c'"
    and "cell_targets g' (TagInt (Suc (last_uuid g))) = [p]"
proof -
  let ?n = "last_uuid g"
  let ?c = "TagInt (Suc ?n)"
  from add_thumb_cell_shape [OF a] obtain texs m B where
    it: "items g' = items g @ (?c, \<lparr>ikind = TableCell, iparent = row\<rparr>) # texs @ cell_tail e p ?c B m"
    and bi: "bindings g' = bindings g @ [(TagInt (Suc (Suc m)), TagInt (Suc (Suc (Suc m))))]"
    and lu: "last_uuid g' = Suc (Suc (Suc (Suc (Suc m))))"
    and B: "is_button B"
    and tx: "texs = [] \<and> m = Suc ?n
          \<or> (\<exists>w h d. texs = [(TagInt (Suc (Suc ?n)), \<lparr>ikind = StaticTexture w h d, iparent = texreg s\<rparr>)]
                \<and> m = Suc (Suc ?n))"
    by blast
  let ?new = "(?c, \<lparr>ikind = TableCell, iparent = row\<rparr>) # texs @ cell_tail e p ?c B m"
  let ?grp = "TagInt (Suc m)"
  let ?btn = "TagInt (Suc (Suc m))"
  let ?ihr = "TagInt (Suc (Suc (Suc m)))"
  from tx have m: "?n < m" by auto
  have Bk: "B \<noteq> TableRow" "B \<noteq> TableCell" "B \<noteq> Group" "handler_path B = []"
    using B by (cases B; simp)+
  have k_row: "kids (\<lambda>k. k = TableRow) ?new u = []" for u
    using tx Bk by (auto simp: kids_Cons kids_append kids_Nil cell_tail_def)
  have k_cell: "kids (\<lambda>k. k = TableCell) ?new u = (if u = row then [?c] else [])" for u
    using tx Bk by (auto simp: kids_Cons kids_append kids_Nil cell_tail_def)
  have k_grp: "kids (\<lambda>k. k = Group) ?new u = (if u = ?c then [?grp] else [])" for u
    using tx Bk by (auto simp: kids_Cons kids_append kids_Nil cell_tail_def)
  have k_btn: "kids is_button ?new u = (if u = ?grp then [?btn] else [])" for u
    using tx B by (auto simp: kids_Cons kids_append kids_Nil cell_tail_def)
  have h_new: "handler_paths ?new u = (if u = ?ihr then [p] else [])" for u
    using tx Bk by (auto simp: handler_paths_Cons handler_paths_append handler_paths_Nil cell_tail_def)
  show lu_le: "?n \<le> last_uuid g'" using m lu by simp
  have up: "tag_le (texreg s) (last_uuid g')" "tag_le row (last_uuid g')"
    using tag_le_mono [OF ok(3) lu_le] tag_le_mono [OF ok(4) lu_le] by simp_all
  have new_ok: "items_ok (last_uuid g') ?new"
    using tx up m unfolding lu
    by (auto simp: items_ok_def cell_tail_def)
  show "items_ok (last_uuid g') (items g')"
    unfolding it items_ok_append using items_ok_mono [OF ok(1) lu_le] new_ok by simp
  show "bindings_ok (last_uuid g') (bindings g')"
    using bindings_ok_mono [OF ok(2) lu_le] unfolding bi lu
    by (simp add: bindings_ok_def)
  show "rows_of (items g') t = rows_of (items g) t"
    unfolding rows_of_def it kids_append k_row by simp
  show "cells_of (items g') r = cells_of (items g) r @ (if r = row then [?c] else [])"
    unfolding cells_of_def it kids_append k_cell by simp
  have hp_old: "handler_paths (items g') u = handler_paths (items g) u" if "tag_le u ?n" for u
  proof -
    from that m have "u \<noteq> ?ihr" by (cases u) auto
    then show ?thesis unfolding it handler_paths_append h_new by simp
  qed
  have bt_old: "button_targets g' u = button_targets g u" if "tag_le u ?n" for u
  proof -
    from that m have "u \<noteq> ?btn" by (cases u) auto
    then have "registries_of (bindings g') u = registries_of (bindings g) u"
      unfolding bi by (simp add: registries_of_def)
    moreover have "handler_paths (items g') x = handler_paths (items g) x"
      if "x \<in> set (registries_of (bindings g) u)" for x
      by (rule hp_old) (rule registries_ok [OF ok(2) that])
    ultimately show ?thesis
      unfolding button_targets_def by (simp add: concat_map_cong [of _ "handler_paths (items g')"])
  qed
  have gt_old: "group_targets g' u = group_targets g u" if "tag_le u ?n" for u
  proof -
    from that m have "u \<noteq> ?grp" by (cases u) auto
    then have "kids is_button (items g') u = kids is_button (items g) u"
      unfolding it kids_append k_btn by simp
    moreover have "button_targets g' x = button_targets g x"
      if "x \<in> set (kids is_button (items g) u)" for x
      by (rule bt_old) (rule kids_ids_ok [OF ok(1) that])
    ultimately show ?thesis
      unfolding group_targets_def by (simp add: concat_map_cong [of _ "button_targets g'"])
  qed
  show "cell_targets g' c' = cell_targets g c'" if "tag_le c' ?n"
  proof -
    from that have "c' \<noteq> ?c" by (cases c') auto
    then have "kids (\<lambda>k. k = Group) (items g') c' = kids (\<lambda>k. k = Group) (items g) c'"
      unfolding it kids_append k_grp by simp
    moreover have "group_targets g' x = group_targets g x"
      if "x \<in> set (kids (\<lambda>k. k = Group) (items g) c')" for x
      by (rule gt_old) (rule kids_ids_ok [OF ok(1) that])
    ultimately show ?thesis
      unfolding cell_targets_def by (simp add: concat_map_cong [of _ "group_targets g'"])
  qed
  have "handler_paths (items g') ?ihr = [p]"
    unfolding it handler_paths_append h_new
    using handler_paths_fresh [OF ok(1), of "Suc (Suc (Suc m))"] m by simp
  moreover have "registries_of (bindings g') ?btn = [?ihr]"
    unfolding bi registries_of_append
    using registries_of_fresh [OF ok(2), of "Suc (Suc m)"] m by (simp add: registries_of_def)
  ultimately have bt: "button_targets g' ?btn = [p]"
    by (simp add: button_targets_def)
  have "kids is_button (items g') ?grp = [?btn]"
    unfolding it kids_append k_btn
    using kids_fresh [OF ok(1), of "Suc m"] m by simp
  with bt have gt: "group_targets g' ?grp = [p]"
    by (simp add: group_targets_def)
  have "kids (\<lambda>k. k = Group) (items g') ?c = [?grp]"
    unfolding it kids_append k_grp
    using kids_fresh [OF ok(1), of "Suc ?n"] by simp
  with gt show "cell_targets g' ?c = [p]"
    by (simp add: cell_targets_def)
qed

lemma add_row_view:
  assumes ok: "items_ok (last_uuid g) (items g)" "bindings_ok (last_uuid g) (bindings g)"
      "tag_le t (last_uuid g)"
  defines "g1 \<equiv> snd (add_item TableRow t g)"
  shows "items_ok (last_uuid g1) (items g1)"
    and "bindings_ok (last_uuid g1) (bindings g1)"
    and "last_uuid g1 = Suc (last_uuid g)"
    and "rows_of (items g1) t = rows_of (items g) t @ [TagInt (Suc (last_uuid g))]"
    and "TagInt (Suc (last_uuid g)) \<notin> set (rows_of (items g) t)"
    and "grid_view g1 t = grid_view g t @ [[]]"
proof -
  let ?n = "last_uuid g"
  let ?r = "TagInt (Suc ?n)"
  have it: "items g1 = items g @ [(?r, \<lparr>ikind = TableRow, iparent = t\<rparr>)]"
    and bi: "bindings g1 = bindings g" and lu: "last_uuid g1 = Suc ?n"
    by (simp_all add: g1_def add_item_def Let_def)
  show "last_uuid g1 = Suc ?n" by (rule lu)
  show "items_ok (last_uuid g1) (items g1)"
    unfolding it lu items_ok_append
    using items_ok_mono [OF ok(1), of "Suc ?n"] tag_le_mono [OF ok(3), of "Suc ?n"]
    by (simp add: items_ok_def)
  show "bindings_ok (last_uuid g1) (bindings g1)"
    unfolding bi lu using bindings_ok_mono [OF ok(2), of "Suc ?n"] by simp
  show rows: "rows_of (items g1) t = rows_of (items g) t @ [?r]"
    unfolding it rows_of_def kids_append by (simp add: kids_Cons kids_Nil)
  show "?r \<notin> set (rows_of (items g) t)"
  proof
    assume "?r \<in> set (rows_of (items g) t)"
    then have "tag_le ?r ?n"
      unfolding rows_of_def by (rule kids_ids_ok [OF ok(1)])
    then show False by simp
  qed
  have cells: "cells_of (items g1) u = cells_of (items g) u" for u
    unfolding it cells_of_def kids_append by (simp add: kids_Cons kids_Nil)
  have hp: "handler_paths (items g1) u = handler_paths (items g) u" for u
    unfolding it by (simp add: handler_paths_def)
  have kb: "kids is_button (items g1) u = kids is_button (items g) u" for u
    unfolding it by (simp add: kids_def)
  have kg: "kids (\<lambda>k. k = Group) (items g1) u = kids (\<lambda>k. k = Group) (items g) u" for u
    unfolding it by (simp add: kids_def)
  have hp': "handler_paths (items g1) = handler_paths (items g)"
    by (rule ext) (rule hp)
  have bt: "button_targets g1 = button_targets g"
    by (rule ext) (simp add: button_targets_def hp' bi)
  have gt: "group_targets g1 = group_targets g"
    by (rule ext) (simp add: group_targets_def bt kb)
  have ct: "cell_targets g1 c = cell_targets g c" for c
    by (simp add: cell_targets_def gt kg)
  have "cells_of (items g) ?r = []"
    unfolding cells_of_def by (rule kids_fresh [OF ok(1)]) simp
  then show "grid_view g1 t = grid_view g t @ [[]]"
    unfolding grid_view_def rows by (simp add: cells ct)
qed

lemma add_thumb_cell_grid:
  assumes a: "add_thumb_cell pil_ok e r p (s, g) = (s', g')"
    and ok: "items_ok (last_uuid g) (items g)" "bindings_ok (last_uuid g) (bindings g)"
      "tag_le (texreg s) (last_uuid g)"
    and rows: "rows_of (items g) t = rs @ [r]" and fresh: "r \<notin> set rs"
  shows "grid_view g' t = butlast (grid_view g t) @ [last (grid_view g t) @ [[p]]]"
    and "rows_of (items g') t = rs @ [r]"
proof -
  let ?n = "last_uuid g"
  have "r \<in> set (rows_of (items g) t)" by (simp add: rows)
  then have r_ok: "tag_le r ?n"
    unfolding rows_of_def by (rule kids_ids_ok [OF ok(1)])
  note v = add_thumb_cell_view [OF a ok r_ok]
  show "rows_of (items g') t = rs @ [r]" by (simp add: v(4) rows)
  let ?F = "\<lambda>u. map (cell_targets g) (cells_of (items g) u)"
  let ?F' = "\<lambda>u. map (cell_targets g') (cells_of (items g') u)"
  have old: "map (cell_targets g') (cells_of (items g) u) = ?F u" for u
  proof (rule map_cong [OF refl])
    fix x assume "x \<in> set (cells_of (items g) u)"
    then have "tag_le x ?n"
      unfolding cells_of_def by (rule kids_ids_ok [OF ok(1)])
    then show "cell_targets g' x = cell_targets g x" by (rule v(6))
  qed
  have F_rs: "map ?F' rs = map ?F rs"
  proof (rule map_cong [OF refl])
    fix u assume "u \<in> set rs"
    with fresh have "u \<noteq> r" by auto
    then show "?F' u = ?F u" by (simp add: v(5) old)
  qed
  have F_r: "?F' r = ?F r @ [[p]]"
    by (simp add: v(5) v(7) old)
  have "grid_view g' t = map ?F rs @ [?F r @ [[p]]]"
    unfolding grid_view_def v(4) rows using F_rs F_r by simp
  moreover have "grid_view g t = map ?F rs @ [?F r]"
    unfolding grid_view_def rows by simp
  ultimately show "grid_view g' t = butlast (grid_view g t) @ [last (grid_view g t) @ [[p]]]"
    by simp
qed

lemma grid_loop_view:
  assumes "grid_loop pil_ok e cols t i row ps (s, g) = (s', g')"
    and "items_ok (last_uuid g) (items g)" and "bindings_ok (last_uuid g) (bindings g)"
    and "tag_le (texreg s) (last_uuid g)" and "tag_le t (last_uuid g)"
    and "i mod cols \<noteq> 0 \<Longrightarrow> \<exists>r rs. row = Some r \<and> rows_of (items g) t = rs @ [r] \<and> r \<notin> set rs"
  shows "grid_view g' t = lay cols i (grid_view g t) (map (\<lambda>p. [p]) ps)"
  using assms
proof (induction ps arbitrary: i row s g)
  case Nil
  then show ?case by simp
next
  case (Cons p ps)
  let ?n = "last_uuid g"
  show ?case
  proof (cases "i mod cols = 0")
    case True
    let ?g1 = "snd (add_item TableRow t g)"
    let ?r = "TagInt (Suc ?n)"
    note rv = add_row_view [OF Cons.prems(2,3,5)]
    obtain s2 g2 where c: "add_thumb_cell pil_ok e ?r p (s, ?g1) = (s2, g2)"
      by (cases "add_thumb_cell pil_ok e ?r p (s, ?g1)") auto
    from Cons.prems(1) True c
    have l: "grid_loop pil_ok e cols t (i + 1) (Some ?r) ps (s2, g2) = (s', g')"
      by (simp add: add_item_def Let_def)
    have tr1: "tag_le (texreg s) (last_uuid ?g1)"
      using tag_le_mono [OF Cons.prems(4), of "Suc ?n"] rv(3) by simp
    have r1: "tag_le ?r (last_uuid ?g1)" using rv(3) by simp
    note cv = add_thumb_cell_view [OF c rv(1,2) tr1 r1]
    note cg = add_thumb_cell_grid [OF c rv(1,2) tr1 rv(4) rv(5)]
    have tr2: "tag_le (texreg s2) (last_uuid g2)"
      using add_thumb_cell_fields(6) [OF c] tag_le_mono [OF tr1 cv(3)] by simp
    have t2: "tag_le t (last_uuid g2)"
      using tag_le_mono [OF Cons.prems(5), of "last_uuid g2"] cv(3) rv(3) by simp
    have inv: "\<exists>r rs. Some ?r = Some r \<and> rows_of (items g2) t = rs @ [r] \<and> r \<notin> set rs"
      using cg(2) rv(5) by blast
    have "grid_view g' t = lay cols (i + 1) (grid_view g2 t) (map (\<lambda>p. [p]) ps)"
      by (rule Cons.IH [OF l cv(1) cv(2) tr2 t2 inv])
    moreover have "grid_view g2 t = grid_view g t @ [[[p]]]"
      unfolding cg(1) rv(6) by simp
    ultimately show ?thesis using True by simp
  next
    case False
    from Cons.prems(6) [OF False] obtain r rs
      where row: "row = Some r" and rows: "rows_of (items g) t = rs @ [r]" and fresh: "r \<notin> set rs"
      by blast
    obtain s2 g2 where c: "add_thumb_cell pil_ok e r p (s, g) = (s2, g2)"
      by (cases "add_thumb_cell pil_ok e r p (s, g)") auto
    from Cons.prems(1) False c row
    have l: "grid_loop pil_ok e cols t (i + 1) (Some r) ps (s2, g2) = (s', g')"
      by simp
    have "r \<in> set (rows_of (items g) t)" by (simp add: rows)
    then have r_ok: "tag_le r ?n"
      unfolding rows_of_def by (rule kids_ids_ok [OF Cons.prems(2)])
    note cv = add_thumb_cell_view [OF c Cons.prems(2,3,4) r_ok]
    note cg = add_thumb_cell_grid [OF c Cons.prems(2,3,4) rows fresh]
    have tr2: "tag_le (texreg s2) (last_uuid g2)"
      using add_thumb_cell_fields(6) [OF c] tag_le_mono [OF Cons.prems(4) cv(3)] by simp
    have t2: "tag_le t (last_uuid g2)"
      by (rule tag_le_mono [OF Cons.prems(5) cv(3)])
    have inv: "\<exists>r' rs. Some r = Some r' \<and> rows_of (items g2) t = rs @ [r'] \<and> r' \<notin> set rs"
      using cg(2) fresh by blast
    have "grid_view g' t = lay cols (i + 1) (grid_view g2 t) (map (\<lambda>p. [p]) ps)"
      by (rule Cons.IH [OF l cv(1) cv(2) tr2 t2 inv])
    then show ?thesis using False by (simp add: cg(1))
  qed
qed

lemma row_lengths_new_row:
  assumes "0 < c" and "k mod c = 0"
  shows "row_lengths c (Suc k) = row_lengths c k @ [1]"
proof (cases "c = 1")
  case True
  then show ?thesis
    by (simp add: row_lengths_def replicate_append_same)
next
  case False
  with assms have "Suc k mod c = 1" and "Suc k div c = k div c"
    by (simp_all add: mod_Suc div_Suc)
  with assms show ?thesis
    by (simp add: row_lengths_def)
qed

lemma row_lengths_same_row:
  assumes "0 < c" and "k mod c \<noteq> 0"
  shows "row_lengths c (Suc k) = replicate (k div c) c @ [Suc (k mod c)]"
proof (cases "Suc (k mod c) = c")
  case True
  then have "Suc k mod c = 0" and "Suc k div c = Suc (k div c)"
    by (simp_all add: mod_Suc div_Suc)
  with True show ?thesis
    by (simp add: row_lengths_def replicate_append_same)
next
  case False
  then have "Suc k mod c = Suc (k mod c)" and "Suc k div c = k div c"
    by (simp_all add: mod_Suc div_Suc)
  then show ?thesis
    by (simp add: row_lengths_def)
qed

lemma int_mod_zero_iff: "int k mod int c = 0 \<longleftrightarrow> k mod c = 0"
  by (metis of_nat_eq_0_iff zmod_int)

lemma concat_butlast_last_app:
  "rows \<noteq> [] \<Longrightarrow> concat (butlast rows) @ last rows @ ys = concat rows @ ys"
  by (induction rows) auto

lemma lay_props:
  assumes "0 < c" and "map length rows = row_lengths c k"
  shows "map length (lay (int c) (int k) rows xs) = row_lengths c (k + length xs)
    \<and> concat (lay (int c) (int k) rows xs) = concat rows @ xs"
  using assms(2)
proof (induction xs arbitrary: k rows)
  case Nil
  then show ?case by simp
next
  case (Cons x xs)
  have nxt: "int k + 1 = int (Suc k)" by simp
  show ?case
  proof (cases "k mod c = 0")
    case True
    let ?rows = "rows @ [[x]]"
    have "map length ?rows = row_lengths c (Suc k)"
      using Cons.prems row_lengths_new_row [OF assms(1) True] by simp
    from Cons.IH [OF this] True show ?thesis
      by (simp add: int_mod_zero_iff nxt del: of_nat_Suc)
  next
    case False
    from Cons.prems False have ml: "map length rows = replicate (k div c) c @ [k mod c]"
      by (simp add: row_lengths_def)
    then have ne: "rows \<noteq> []" by auto
    from ml have "length (last rows) = k mod c"
      by (metis ne last_map last_snoc)
    moreover from ml have "map length (butlast rows) = replicate (k div c) c"
      by (metis butlast_snoc map_butlast)
    ultimately have "map length (butlast rows @ [last rows @ [x]]) = row_lengths c (Suc k)"
      using row_lengths_same_row [OF assms(1) False] by simp
    from Cons.IH [OF this] False ne show ?thesis
      by (simp add: int_mod_zero_iff nxt concat_butlast_last_app del: of_nat_Suc)
  qed
qed

lemma ceil_div:
  assumes "0 < (c::nat)"
  shows "(n + c - 1) div c = n div c + (if n mod c = 0 then 0 else 1)"
proof -
  define q where "q = n div c"
  define r where "r = n mod c"
  have n: "n = c * q + r" by (simp add: q_def r_def)
  have r: "r < c" using assms by (simp add: r_def)
  have "(n + c - 1) div c = q + (if r = 0 then 0 else 1)"
  proof (cases "r = 0")
    case True
    have "(n + c - 1) div c = q"
    proof (rule div_nat_eqI)
      show "c * q \<le> n + c - 1" unfolding n using assms by linarith
      show "n + c - 1 < c * Suc q" unfolding n using assms True by (simp add: algebra_simps)
    qed
    with True show ?thesis by simp
  next
    case False
    have "(n + c - 1) div c = Suc q"
    proof (rule div_nat_eqI)
      show "c * Suc q \<le> n + c - 1" unfolding n using False by (simp add: algebra_simps)
      show "n + c - 1 < c * Suc (Suc q)" unfolding n using r assms by (simp add: algebra_simps)
    qed
    with False show ?thesis by simp
  qed
  then show ?thesis by (simp add: q_def r_def)
qed

lemma length_row_lengths: "length (row_lengths c n) = n div c + (if n mod c = 0 then 0 else 1)"
  by (simp add: row_lengths_def)

lemma delete_from_subset: "set (delete_from dead xs) \<subseteq> set xs"
  by (induction dead xs rule: delete_from.induct) auto

lemma items_ok_subset: "items_ok n xs \<Longrightarrow> set ys \<subseteq> set xs \<Longrightarrow> items_ok n ys"
  by (auto simp: items_ok_def list_all_iff)

lemma delete_item_store:
  "set (items (delete_item t g)) \<subseteq> set (items g)"
  "last_uuid (delete_item t g) = last_uuid g"
  "bindings (delete_item t g) = bindings g"
  by (simp_all add: delete_item_def delete_from_subset)

lemma fold_delete_store:
  "set (items (fold (\<lambda>it g. if does_item_exist g it then delete_item it g else g) ts g)) \<subseteq> set (items g)
   \<and> last_uuid (fold (\<lambda>it g. if does_item_exist g it then delete_item it g else g) ts g) = last_uuid g
   \<and> bindings (fold (\<lambda>it g. if does_item_exist g it then delete_item it g else g) ts g) = bindings g"
proof (induction ts arbitrary: g)
  case Nil
  then show ?case by simp
next
  case (Cons t ts)
  let ?g = "if does_item_exist g t then delete_item t g else g"
  have "set (items ?g) \<subseteq> set (items g)" "last_uuid ?g = last_uuid g" "bindings ?g = bindings g"
    by (simp_all add: delete_item_store)
  with Cons.IH [of ?g] show ?case by auto
qed

lemma clear_grid_items_store:
  assumes "clear_grid_items (s, g) = (s1, g1)"
  shows "set (items g1) \<subseteq> set (items g)" and "last_uuid g1 = last_uuid g"
    and "bindings g1 = bindings g"
proof -
  let ?g0 = "fold (\<lambda>it g. if does_item_exist g it then delete_item it g else g) (thumb_items s) g"
  note f = fold_delete_store [of "thumb_items s" g]
  from assms have "g1 = ?g0 \<or> (\<exists>t. g1 = delete_item t ?g0)"
    by (auto simp: clear_grid_items_def Let_def split: option.splits if_splits)
  then show "set (items g1) \<subseteq> set (items g)" and "last_uuid g1 = last_uuid g"
    and "bindings g1 = bindings g"
    using f delete_item_store by (auto; blast)+
qed

lemma add_table_columns_props:
  assumes "items_ok (last_uuid g) (items g)" and "tag_le t (last_uuid g)"
  shows "items_ok (last_uuid (add_table_columns k t g)) (items (add_table_columns k t g))
    \<and> bindings (add_table_columns k t g) = bindings g
    \<and> last_uuid g \<le> last_uuid (add_table_columns k t g)
    \<and> rows_of (items (add_table_columns k t g)) u = rows_of (items g) u"
  using assms
proof (induction k arbitrary: g)
  case 0
  then show ?case by simp
next
  case (Suc k)
  let ?g1 = "snd (add_item TableColumn t g)"
  have it: "items ?g1 = items g @ [(TagInt (Suc (last_uuid g)), \<lparr>ikind = TableColumn, iparent = t\<rparr>)]"
    and bi: "bindings ?g1 = bindings g" and lu: "last_uuid ?g1 = Suc (last_uuid g)"
    by (simp_all add: add_item_def Let_def)
  have t1: "tag_le t (last_uuid ?g1)"
    unfolding lu by (rule tag_le_mono [OF Suc.prems(2)]) simp
  have ok1: "items_ok (last_uuid ?g1) (items ?g1)"
    unfolding it lu items_ok_append
    using items_ok_mono [OF Suc.prems(1), of "Suc (last_uuid g)"] t1 lu
    by (simp add: items_ok_def)
  have rows: "rows_of (items ?g1) u = rows_of (items g) u"
    unfolding it by (simp add: rows_of_def kids_def)
  from Suc.IH [OF ok1 t1] show ?case
    by (simp add: bi lu rows)
qed

lemma snd_add_item:
  "last_uuid (snd (add_item k par g)) = Suc (last_uuid g)"
  "items (snd (add_item k par g)) = items g @ [(TagInt (Suc (last_uuid g)), \<lparr>ikind = k, iparent = par\<rparr>)]"
  "bindings (snd (add_item k par g)) = bindings g"
  by (simp_all add: add_item_def Let_def)

lemma cell_texts_fresh:
  assumes "items_ok n (items g)" and "n < k"
  shows "cell_texts g (TagInt k) = []"
proof -
  have "\<And>i it. (i, it) \<in> set (items g) \<Longrightarrow> iparent it \<noteq> TagInt k"
    using assms by (auto simp: items_ok_def list_all_iff dest: not_tag_le_fresh)
  then show ?thesis
    by (auto simp: cell_texts_def)
qed

lemma build_grid_view:
  assumes ok: "store_ok (s, g)"
    and b: "build_thumbnail_grid pil_ok e (s, g) = (s', g')"
  shows "images_in_dir s \<noteq> [] \<Longrightarrow>
      shown_grid (s', g') = lay (compute_columns (available_grid_width e s)) 0 []
          (map (\<lambda>p. [p]) (images_in_dir s))"
    and "images_in_dir s = [] \<Longrightarrow>
      shown_texts (s', g') = [[[if pil_ok then ''No images in this folder.''
                               else ''Pillow not installed. Thumbs disabled.'']]]"
proof -
  obtain s1 g1 where c: "clear_grid_items (s, g) = (s1, g1)"
    by (cases "clear_grid_items (s, g)") auto
  note f = clear_grid_items_fields [OF c]
  note st = clear_grid_items_store [OF c]
  let ?n = "last_uuid g"
  from ok have ok0: "items_ok ?n (items g)" "bindings_ok ?n (bindings g)" "tag_le (texreg s) ?n"
    and gc: "case grid_child s of None \<Rightarrow> True | Some gc \<Rightarrow> tag_le gc ?n"
    by (auto simp: store_ok_def split: option.splits)
  have ok1: "items_ok ?n (items g1)"
    by (rule items_ok_subset [OF ok0(1) st(1)])
  let ?cols = "compute_columns (available_grid_width e s)"
  have cols: "compute_columns (available_grid_width e s1) = ?cols"
    by (simp add: available_grid_width_def f)
  let ?par = "case grid_child s of None \<Rightarrow> TagInt 0 | Some gc \<Rightarrow> gc"
  let ?t = "TagInt (Suc ?n)"
  let ?g2 = "snd (add_item Table ?par g1)"
  have par: "tag_le ?par ?n"
    using gc by (simp split: option.splits)
  have it2: "items ?g2 = items g1 @ [(?t, \<lparr>ikind = Table, iparent = ?par\<rparr>)]"
    and bi2: "bindings ?g2 = bindings g" and lu2: "last_uuid ?g2 = Suc ?n"
    and t: "fst (add_item Table ?par g1) = ?t"
    by (simp_all add: add_item_def Let_def st)
  have ok2: "items_ok (last_uuid ?g2) (items ?g2)"
    unfolding it2 lu2 items_ok_append
    using items_ok_mono [OF ok1, of "Suc ?n"] tag_le_mono [OF par, of "Suc ?n"]
    by (simp add: items_ok_def)
  have t2: "tag_le ?t (last_uuid ?g2)" by (simp add: lu2)
  have rows2: "rows_of (items ?g2) ?t = []"
    unfolding it2 rows_of_def kids_append
    using kids_fresh [OF ok1, of "Suc ?n"] by (simp add: kids_Cons kids_Nil)
  let ?g3 = "add_table_columns (nat ?cols) ?t ?g2"
  note cp = add_table_columns_props [OF ok2 t2, of "nat ?cols" ?t]
  from cp have ok3: "items_ok (last_uuid ?g3) (items ?g3)"
    and bi3: "bindings ?g3 = bindings g" and lu3: "Suc ?n \<le> last_uuid ?g3"
    and rows3: "rows_of (items ?g3) ?t = []"
    by (simp_all add: bi2 lu2 rows2)
  have le3: "?n \<le> last_uuid ?g3" using lu3 by simp
  have b3: "bindings_ok (last_uuid ?g3) (bindings ?g3)"
    using bindings_ok_mono [OF ok0(2) le3] by (simp add: bi3)
  have tr3: "tag_le (texreg s1) (last_uuid ?g3)"
    using tag_le_mono [OF ok0(3) le3] by (simp add: f)
  have t3: "tag_le ?t (last_uuid ?g3)" using lu3 by simp
  let ?s2 = "s1\<lparr>grid_table := Some ?t\<rparr>"
  show "shown_grid (s', g') = lay ?cols 0 [] (map (\<lambda>p. [p]) (images_in_dir s))"
    if ne: "images_in_dir s \<noteq> []"
  proof -
    from b c ne have l: "grid_loop pil_ok e ?cols ?t 0 None (images_in_dir s) (?s2, ?g3) = (s', g')"
      by (simp add: build_thumbnail_grid_def Let_def case_prod_beta t cols f)
    have tr: "tag_le (texreg ?s2) (last_uuid ?g3)" using tr3 by simp
    have inv: "(0::int) mod ?cols \<noteq> 0 \<Longrightarrow>
        \<exists>r rs. None = Some r \<and> rows_of (items ?g3) ?t = rs @ [r] \<and> r \<notin> set rs"
      by simp
    from grid_loop_view [OF l ok3 b3 tr t3 inv]
    have "grid_view g' ?t = lay ?cols 0 (grid_view ?g3 ?t) (map (\<lambda>p. [p]) (images_in_dir s))" .
    moreover have "grid_view ?g3 ?t = []"
      by (simp add: grid_view_def rows3)
    moreover have "grid_table s' = Some ?t"
      using grid_loop_fields [OF l] by simp
    ultimately show ?thesis by (simp add: shown_grid_def)
  qed
  show "shown_texts (s', g') = [[[if pil_ok then ''No images in this folder.''
                               else ''Pillow not installed. Thumbs disabled.'']]]"
    if em: "images_in_dir s = []"
  proof -
    let ?msg = "if pil_ok then ''No images in this folder.'' else ''Pillow not installed. Thumbs disabled.''"
    let ?m = "last_uuid ?g3"
    let ?r = "TagInt (Suc ?m)"
    let ?c = "TagInt (Suc (Suc ?m))"
    let ?x = "TagInt (Suc (Suc (Suc ?m)))"
    from b c em have "s' = ?s2\<lparr>thumb_items := thumb_items ?s2 @ [?x]\<rparr>"
      and g': "g' = snd (add_item (Text ?msg) ?c (snd (add_item TableCell ?r (snd (add_item TableRow ?t ?g3)))))"
      by (auto simp: build_thumbnail_grid_def Let_def case_prod_beta t cols f fst_add_item
          snd_add_item st(2))
    then have s': "grid_table s' = Some ?t"
      and it: "items g' = items ?g3 @ [(?r, \<lparr>ikind = TableRow, iparent = ?t\<rparr>),
          (?c, \<lparr>ikind = TableCell, iparent = ?r\<rparr>), (?x, \<lparr>ikind = Text ?msg, iparent = ?c\<rparr>)]"
      by (simp_all add: snd_add_item)
    have neq: "?t \<noteq> ?r" "?t \<noteq> ?c" using lu3 by auto
    have rows: "rows_of (items g') ?t = [?r]"
      unfolding it rows_of_def kids_append using rows3 neq
      by (simp add: rows_of_def kids_Cons kids_Nil)
    have cells: "cells_of (items g') ?r = [?c]"
      unfolding it cells_of_def kids_append
      using kids_fresh [OF ok3, of "Suc ?m"]
      by (simp add: kids_Cons kids_Nil)
    have "cell_texts ?g3 ?c = []"
      by (rule cell_texts_fresh [OF ok3]) simp
    then have texts: "cell_texts g' ?c = [?msg]"
      by (simp add: cell_texts_def it)
    show ?thesis
      by (simp add: shown_texts_def s' rows cells texts)
  qed
qed

lemma columns_positive: "1 \<le> compute_columns w"
  by (simp add: compute_columns_def)

text \<open>
  C3: in a store whose tags do not run ahead of the counter, \<open>build_thumbnail_grid\<close> leaves
  a table whose cells, row by row, open the stored images in their order, one image per
  cell; with \<open>N\<close> images and \<open>c\<close> columns (\<open>c\<close> is at least 1) the rows have \<open>c\<close> cells
  each except that a last, shorter row holds the remaining \<open>N mod c\<close>, so there are
  \<open>(N + c - 1) div c\<close> rows, the ceiling of \<open>N / c\<close>. With no image the table has exactly
  one row with one cell, holding the informational text.
\<close>

theorem grid_rows:
  "store_ok (s, g) \<longrightarrow>
     (let c = nat (compute_columns (available_grid_width e s));
          N = length (images_in_dir s);
          G = shown_grid (build_thumbnail_grid pil_ok e (s, g))
      in 1 \<le> c
         \<and> (images_in_dir s \<noteq> [] \<longrightarrow>
              concat G = map (\<lambda>p. [p]) (images_in_dir s)
              \<and> map length G = replicate (N div c) c @ (if N mod c = 0 then [] else [N mod c])
              \<and> length G = (N + c - 1) div c)
         \<and> (images_in_dir s = [] \<longrightarrow>
              shown_texts (build_thumbnail_grid pil_ok e (s, g))
                = [[[if pil_ok then ''No images in this folder.''
                     else ''Pillow not installed. Thumbs disabled.'']]]))"
proof
  assume ok: "store_ok (s, g)"
  let ?cols = "compute_columns (available_grid_width e s)"
  let ?c = "nat ?cols"
  let ?N = "length (images_in_dir s)"
  let ?B = "build_thumbnail_grid pil_ok e (s, g)"
  have c_pos: "0 < ?c" and c_int: "int ?c = ?cols"
    using columns_positive [of "available_grid_width e s"] by simp_all
  have b: "?B = (fst ?B, snd ?B)" by simp
  note v = build_grid_view [OF ok b]
  have full: "concat (shown_grid ?B) = map (\<lambda>p. [p]) (images_in_dir s)
      \<and> map length (shown_grid ?B) = replicate (?N div ?c) ?c @ (if ?N mod ?c = 0 then [] else [?N mod ?c])
      \<and> length (shown_grid ?B) = (?N + ?c - 1) div ?c"
    if ne: "images_in_dir s \<noteq> []"
  proof -
    have start: "map length ([] :: string list list list) = row_lengths ?c 0"
      by (simp add: row_lengths_def)
    from v(1) [OF ne] have G: "shown_grid ?B = lay (int ?c) (int 0) [] (map (\<lambda>p. [p]) (images_in_dir s))"
      by (simp only: c_int of_nat_0 prod.collapse)
    from lay_props [OF c_pos start, of "map (\<lambda>p. [p]) (images_in_dir s)"]
    have ml: "map length (shown_grid ?B) = row_lengths ?c ?N"
      and cc: "concat (shown_grid ?B) = map (\<lambda>p. [p]) (images_in_dir s)"
      unfolding G by simp_all
    have "length (shown_grid ?B) = length (row_lengths ?c ?N)"
      using arg_cong [OF ml, of length] by simp
    then have "length (shown_grid ?B) = (?N + ?c - 1) div ?c"
      by (simp only: length_row_lengths ceil_div [OF c_pos])
    with ml cc show ?thesis
      by (simp only: row_lengths_def simp_thms)
  qed
  show "let c = ?c; N = ?N; G = shown_grid ?B
      in 1 \<le> c
         \<and> (images_in_dir s \<noteq> [] \<longrightarrow>
              concat G = map (\<lambda>p. [p]) (images_in_dir s)
              \<and> map length G = replicate (N div c) c @ (if N mod c = 0 then [] else [N mod c])
              \<and> length G = (N + c - 1) div c)
         \<and> (images_in_dir s = [] \<longrightarrow>
              shown_texts ?B
                = [[[if pil_ok then ''No images in this folder.''
                     else ''Pillow not installed. Thumbs disabled.'']]])"
    unfolding Let_def using c_pos full v(2) by (auto simp only: prod.collapse)
qed

lemma example_store_ok: "store_ok (example_state imgs, example_dpg)"
  by (simp add: store_ok_def items_ok_def bindings_ok_def example_state_def example_dpg_def)

lemma example_cols: "compute_columns (available_grid_width example_env (example_state imgs)) = 2"
  by (simp add: available_grid_width_def example_env_def example_state_def compute_columns_def
      THUMB_SIZE_def THUMB_PADDING_def)

lemma example_grid:
  "shown_grid (build_thumbnail_grid True example_env
       (example_state [''pics/a.jpg'', ''pics/b.PNG'', ''pics/c.gif''], example_dpg))
     = [[[''pics/a.jpg''], [''pics/b.PNG'']], [[''pics/c.gif'']]]"
  by (simp add: build_thumbnail_grid_def clear_grid_items_def example_state_def example_dpg_def
        example_env_def available_grid_width_def compute_columns_def THUMB_SIZE_def THUMB_PADDING_def
        add_item_def add_thumb_cell_def thumb_for_def pil_to_dpg_def bind_item_handler_registry_def
        Let_def numeral_2_eq_2 shown_grid_def grid_view_def rows_of_def cells_of_def kids_def
        cell_targets_def group_targets_def button_targets_def registries_of_def handler_paths_def)

lemma example_images: "images_in_dir (example_state imgs) = imgs"
  by (simp add: example_state_def)

theorem grid_rows_witness:
  "store_ok (example_state [''pics/a.jpg'', ''pics/b.PNG'', ''pics/c.gif''], example_dpg)
   \<and> nat (compute_columns (available_grid_width example_env
          (example_state [''pics/a.jpg'', ''pics/b.PNG'', ''pics/c.gif'']))) = 2
   \<and> shown_grid (build_thumbnail_grid True example_env
          (example_state [''pics/a.jpg'', ''pics/b.PNG'', ''pics/c.gif''], example_dpg))
        = [[[''pics/a.jpg''], [''pics/b.PNG'']], [[''pics/c.gif'']]]
   \<and> map length (shown_grid (build_thumbnail_grid True example_env
          (example_state [''pics/a.jpg'', ''pics/b.PNG'', ''pics/c.gif''], example_dpg))) = [2, 1]
   \<and> length (shown_grid (build_thumbnail_grid True example_env
          (example_state [''pics/a.jpg'', ''pics/b.PNG'', ''pics/c.gif''], example_dpg))) = 2
   \<and> store_ok (example_state [], example_dpg)
   \<and> shown_texts (build_thumbnail_grid True example_env (example_state [], example_dpg))
        = [[[''No images in this folder.'']]]"
proof -
  let ?imgs = "[''pics/a.jpg'', ''pics/b.PNG'', ''pics/c.gif'']"
  let ?G = "shown_grid (build_thumbnail_grid True example_env (example_state ?imgs, example_dpg))"
  have c: "nat (compute_columns (available_grid_width example_env (example_state ?imgs))) = 2"
    by (simp add: example_cols)
  have N: "length ?imgs = 3" by simp
  have "let c = nat (compute_columns (available_grid_width example_env (example_state ?imgs)));
          N = length (images_in_dir (example_state ?imgs)); G = ?G
      in 1 \<le> c
         \<and> (images_in_dir (example_state ?imgs) \<noteq> [] \<longrightarrow>
              concat G = map (\<lambda>p. [p]) (images_in_dir (example_state ?imgs))
              \<and> map length G = replicate (N div c) c @ (if N mod c = 0 then [] else [N mod c])
              \<and> length G = (N + c - 1) div c)
         \<and> (images_in_dir (example_state ?imgs) = [] \<longrightarrow>
              shown_texts (build_thumbnail_grid True example_env (example_state ?imgs, example_dpg))
                = [[[if True then ''No images in this folder.''
                     else ''Pillow not installed. Thumbs disabled.'']]])"
    by (rule mp [OF grid_rows example_store_ok])
  then have "map length ?G = replicate (3 div 2) 2 @ (if (3::nat) mod 2 = 0 then [] else [3 mod 2])
      \<and> length ?G = (3 + 2 - 1) div 2"
    unfolding Let_def example_images c N by blast
  then have m: "map length ?G = [2, 1]" and l: "length ?G = 2"
    by simp_all
  from grid_rows [of "example_state []" example_dpg example_env True]
    example_store_ok [of "[]"]
  have t: "shown_texts (build_thumbnail_grid True example_env (example_state [], example_dpg))
        = [[[''No images in this folder.'']]]"
    by (simp add: Let_def example_images)
  from example_store_ok [of ?imgs] example_store_ok [of "[]"] c example_grid m l t
  show ?thesis by blast
qed

section \<open>The store invariant is kept by every event\<close>

lemma store_okI:
  assumes "items_ok (last_uuid g) (items g)" and "bindings_ok (last_uuid g) (bindings g)"
    and "tag_le (texreg s) (last_uuid g)"
    and "\<And>gc. grid_child s = Some gc \<Longrightarrow> tag_le gc (last_uuid g)"
  shows "store_ok (s, g)"
  using assms by (auto simp: store_ok_def split: option.splits)

lemma store_okD:
  assumes "store_ok (s, g)"
  shows "items_ok (last_uuid g) (items g)" and "bindings_ok (last_uuid g) (bindings g)"
    and "tag_le (texreg s) (last_uuid g)"
    and "\<And>gc. grid_child s = Some gc \<Longrightarrow> tag_le gc (last_uuid g)"
  using assms by (auto simp: store_ok_def split: option.splits)

lemma add_item_items_ok:
  assumes "items_ok (last_uuid g) (items g)" and "tag_le par (last_uuid g)"
  shows "items_ok (last_uuid (snd (add_item k par g))) (items (snd (add_item k par g)))"
  unfolding snd_add_item items_ok_append
  using items_ok_mono [OF assms(1), of "Suc (last_uuid g)"] tag_le_mono [OF assms(2), of "Suc (last_uuid g)"]
  by (simp add: items_ok_def)

lemma thumb_for_store_ok:
  assumes t: "thumb_for pil_ok e (s, g) p = (r, s', g')" and ok: "store_ok (s, g)"
  shows "store_ok (s', g')"
proof -
  note d = store_okD [OF ok]
  note f = thumb_for_fields [OF t]
  from thumb_for_store [OF t] show ?thesis
  proof
    assume "g' = g"
    with d f show ?thesis by (intro store_okI) simp_all
  next
    assume "\<exists>w h dd. g' = snd (add_item (StaticTexture w h dd) (texreg s) g)"
    then obtain w h dd where g': "g' = snd (add_item (StaticTexture w h dd) (texreg s) g)" by blast
    have le: "last_uuid g \<le> last_uuid g'" by (simp add: g' snd_add_item)
    show ?thesis
    proof (intro store_okI)
      show "items_ok (last_uuid g') (items g')"
        unfolding g' by (rule add_item_items_ok [OF d(1) d(3)])
      show "bindings_ok (last_uuid g') (bindings g')"
        using bindings_ok_mono [OF d(2) le] by (simp add: g' snd_add_item)
      show "tag_le (texreg s') (last_uuid g')"
        using tag_le_mono [OF d(3) le] by (simp add: f)
      show "tag_le gc (last_uuid g')" if "grid_child s' = Some gc" for gc
        using that tag_le_mono [OF d(4) le, of gc] by (simp add: f)
    qed
  qed
qed

lemma grid_loop_store:
  assumes "grid_loop pil_ok e cols t i row ps (s, g) = (s', g')"
    and "items_ok (last_uuid g) (items g)" and "bindings_ok (last_uuid g) (bindings g)"
    and "tag_le (texreg s) (last_uuid g)" and "tag_le t (last_uuid g)"
    and "\<And>r. row = Some r \<Longrightarrow> tag_le r (last_uuid g)"
  shows "items_ok (last_uuid g') (items g') \<and> bindings_ok (last_uuid g') (bindings g')
    \<and> last_uuid g \<le> last_uuid g'"
  using assms
proof (induction ps arbitrary: i row s g)
  case Nil
  then show ?case by simp
next
  case (Cons p ps)
  let ?n = "last_uuid g"
  obtain row1 g1 where r: "(if i mod cols = 0 then (let (r, g1) = add_item TableRow t g in (Some r, g1))
             else (row, g)) = (row1, g1)"
    by (cases "(if i mod cols = 0 then (let (r, g1) = add_item TableRow t g in (Some r, g1))
             else (row, g))") auto
  let ?par = "case row1 of None \<Rightarrow> t | Some r \<Rightarrow> r"
  have g1: "items_ok (last_uuid g1) (items g1)" "bindings_ok (last_uuid g1) (bindings g1)"
    "?n \<le> last_uuid g1" "\<And>r. row1 = Some r \<Longrightarrow> tag_le r (last_uuid g1)"
  proof -
    show "items_ok (last_uuid g1) (items g1)"
      using r Cons.prems(2) add_item_items_ok [OF Cons.prems(2,5), of TableRow]
      by (auto simp: case_prod_beta split: if_splits)
    show "bindings_ok (last_uuid g1) (bindings g1)"
      using r Cons.prems(3) bindings_ok_mono [OF Cons.prems(3), of "Suc ?n"]
      by (auto simp: case_prod_beta snd_add_item split: if_splits)
    show "?n \<le> last_uuid g1"
      using r by (auto simp: case_prod_beta snd_add_item split: if_splits)
    show "tag_le r' (last_uuid g1)" if "row1 = Some r'" for r'
      using r that Cons.prems(6)
      by (auto simp: case_prod_beta snd_add_item fst_add_item split: if_splits)
  qed
  have par: "tag_le ?par (last_uuid g1)"
    using g1(4) tag_le_mono [OF Cons.prems(5) g1(3)] by (cases row1) auto
  have tr1: "tag_le (texreg s) (last_uuid g1)"
    by (rule tag_le_mono [OF Cons.prems(4) g1(3)])
  obtain s2 g2 where c: "add_thumb_cell pil_ok e ?par p (s, g1) = (s2, g2)"
    by (cases "add_thumb_cell pil_ok e ?par p (s, g1)") auto
  from Cons.prems(1) have l: "grid_loop pil_ok e cols t (i + 1) row1 ps (s2, g2) = (s', g')"
    by (simp add: r c)
  note cv = add_thumb_cell_view [OF c g1(1,2) tr1 par]
  have tr2: "tag_le (texreg s2) (last_uuid g2)"
    using add_thumb_cell_fields(6) [OF c] tag_le_mono [OF tr1 cv(3)] by simp
  have t2: "tag_le t (last_uuid g2)"
    by (rule tag_le_mono [OF tag_le_mono [OF Cons.prems(5) g1(3)] cv(3)])
  have r2: "tag_le r' (last_uuid g2)" if "row1 = Some r'" for r'
    by (rule tag_le_mono [OF g1(4) [OF that] cv(3)])
  from Cons.IH [OF l cv(1) cv(2) tr2 t2 r2] g1(3) cv(3) show ?case by simp
qed

lemma build_thumbnail_grid_store_ok:
  assumes ok: "store_ok (s, g)"
  shows "store_ok (build_thumbnail_grid pil_ok e (s, g))"
proof -
  obtain s' g' where b: "build_thumbnail_grid pil_ok e (s, g) = (s', g')"
    by (cases "build_thumbnail_grid pil_ok e (s, g)") auto
  note d = store_okD [OF ok]
  note bf = build_thumbnail_grid_fields [OF b]
  obtain s1 g1 where c: "clear_grid_items (s, g) = (s1, g1)"
    by (cases "clear_grid_items (s, g)") auto
  note f = clear_grid_items_fields [OF c]
  note st = clear_grid_items_store [OF c]
  let ?n = "last_uuid g"
  have ok1: "items_ok ?n (items g1)"
    by (rule items_ok_subset [OF d(1) st(1)])
  let ?cols = "compute_columns (available_grid_width e s)"
  have cols: "compute_columns (available_grid_width e s1) = ?cols"
    by (simp add: available_grid_width_def f)
  let ?par = "case grid_child s of None \<Rightarrow> TagInt 0 | Some gc \<Rightarrow> gc"
  let ?t = "TagInt (Suc ?n)"
  let ?g2 = "snd (add_item Table ?par g1)"
  have par: "tag_le ?par (last_uuid g1)"
    using d(4) by (simp add: st split: option.splits)
  have t: "fst (add_item Table ?par g1) = ?t" by (simp add: fst_add_item st)
  have lu2: "last_uuid ?g2 = Suc ?n" by (simp add: snd_add_item st)
  have ok2: "items_ok (last_uuid ?g2) (items ?g2)"
    by (rule add_item_items_ok) (simp_all add: st ok1 par [unfolded st])
  have t2: "tag_le ?t (last_uuid ?g2)" by (simp add: lu2)
  let ?g3 = "add_table_columns (nat ?cols) ?t ?g2"
  note cp = add_table_columns_props [OF ok2 t2, of "nat ?cols" ?t]
  from cp have ok3: "items_ok (last_uuid ?g3) (items ?g3)"
    and bi3: "bindings ?g3 = bindings g" and lu3: "Suc ?n \<le> last_uuid ?g3"
    by (simp_all add: snd_add_item st lu2)
  have le3: "?n \<le> last_uuid ?g3" using lu3 by simp
  have b3: "bindings_ok (last_uuid ?g3) (bindings ?g3)"
    using bindings_ok_mono [OF d(2) le3] by (simp add: bi3)
  have tr3: "tag_le (texreg s1) (last_uuid ?g3)"
    using tag_le_mono [OF d(3) le3] by (simp add: f)
  have t3: "tag_le ?t (last_uuid ?g3)" using lu3 by simp
  let ?s2 = "s1\<lparr>grid_table := Some ?t\<rparr>"
  have fin: "items_ok (last_uuid g') (items g') \<and> bindings_ok (last_uuid g') (bindings g')
    \<and> ?n \<le> last_uuid g'"
  proof (cases "images_in_dir s = []")
    case False
    from b c False have l: "grid_loop pil_ok e ?cols ?t 0 None (images_in_dir s) (?s2, ?g3) = (s', g')"
      by (simp add: build_thumbnail_grid_def Let_def case_prod_beta t cols f)
    have tr: "tag_le (texreg ?s2) (last_uuid ?g3)" using tr3 by simp
    from grid_loop_store [OF l ok3 b3 tr t3] le3 show ?thesis by simp
  next
    case True
    let ?msg = "if pil_ok then ''No images in this folder.'' else ''Pillow not installed. Thumbs disabled.''"
    let ?m = "last_uuid ?g3"
    let ?r = "TagInt (Suc ?m)"
    let ?c = "TagInt (Suc (Suc ?m))"
    let ?g4 = "snd (add_item TableRow ?t ?g3)"
    let ?g5 = "snd (add_item TableCell ?r ?g4)"
    from b c True have g': "g' = snd (add_item (Text ?msg) ?c ?g5)"
      by (auto simp: build_thumbnail_grid_def Let_def case_prod_beta t cols f fst_add_item
          snd_add_item st(2))
    have ok4: "items_ok (last_uuid ?g4) (items ?g4)"
      by (rule add_item_items_ok [OF ok3 t3])
    have ok5: "items_ok (last_uuid ?g5) (items ?g5)"
      by (rule add_item_items_ok [OF ok4]) (simp add: snd_add_item)
    have ok6: "items_ok (last_uuid g') (items g')"
      unfolding g' by (rule add_item_items_ok [OF ok5]) (simp add: snd_add_item)
    have le: "last_uuid ?g3 \<le> last_uuid g'" by (simp add: g' snd_add_item)
    have "bindings_ok (last_uuid g') (bindings g')"
      using bindings_ok_mono [OF b3 le] by (simp add: g' snd_add_item)
    with ok6 le le3 show ?thesis by simp
  qed
  have "store_ok (s', g')"
  proof (intro store_okI)
    show "items_ok (last_uuid g') (items g')" using fin by simp
    show "bindings_ok (last_uuid g') (bindings g')" using fin by simp
    show "tag_le (texreg s') (last_uuid g')"
      using tag_le_mono [OF d(3), of "last_uuid g'"] fin bf by simp
    show "tag_le gc (last_uuid g')" if "grid_child s' = Some gc" for gc
      using that tag_le_mono [OF d(4), of gc "last_uuid g'"] fin bf by simp
  qed
  with b show ?thesis by simp
qed

lemma store_ok_window:
  "store_ok (s, g\<lparr>main_window_size := wh\<rparr>) = store_ok (s, g)"
  by (auto simp: store_ok_def split: option.splits)

lemma load_directory_images_store_ok:
  "store_ok sg \<Longrightarrow> store_ok (load_directory_images fs p sg)"
  by (auto simp: load_directory_images_def store_ok_def split: option.splits)

lemma fold_delete_item_store:
  "set (items (fold delete_item ts g)) \<subseteq> set (items g)
   \<and> last_uuid (fold delete_item ts g) = last_uuid g
   \<and> bindings (fold delete_item ts g) = bindings g"
proof (induction ts arbitrary: g)
  case Nil
  then show ?case by simp
next
  case (Cons t ts)
  from Cons.IH [of "delete_item t g"] delete_item_store [of t g] show ?case by auto
qed

lemma add_tree_nodes_store:
  assumes "items_ok (last_uuid g) (items g)"
  shows "items_ok (last_uuid (add_tree_nodes fs subs g)) (items (add_tree_nodes fs subs g))
    \<and> bindings (add_tree_nodes fs subs g) = bindings g
    \<and> last_uuid g \<le> last_uuid (add_tree_nodes fs subs g)"
  using assms
proof (induction subs arbitrary: g)
  case Nil
  then show ?case by simp
next
  case (Cons sub subs)
  let ?g1 = "snd (add_item (TreeNode (pname sub)) (TagStr ''sidebar_tree'') g)"
  let ?nid = "TagInt (Suc (last_uuid g))"
  let ?g2 = "snd (add_item (Button ''Open folder'' (Some (pstr sub))) ?nid ?g1)"
  have ok1: "items_ok (last_uuid ?g1) (items ?g1)"
    by (rule add_item_items_ok [OF Cons.prems]) simp
  have ok2: "items_ok (last_uuid ?g2) (items ?g2)"
    by (rule add_item_items_ok [OF ok1]) (simp add: snd_add_item)
  have step: "add_tree_nodes fs (sub # subs) g = add_tree_nodes fs subs ?g2"
    by (simp add: case_prod_beta fst_add_item)
  from Cons.IH [OF ok2] show ?case
    unfolding step by (simp add: snd_add_item)
qed

lemma rebuild_sidebar_tree_store_ok:
  assumes ok: "store_ok (s, g)"
  shows "store_ok (rebuild_sidebar_tree e fs (s, g))"
proof -
  note d = store_okD [OF ok]
  let ?g1 = "g\<lparr>sidebar_label := pname (path_of fs (root_dir s))\<rparr>"
  let ?g2 = "fold delete_item (get_item_children ?g1 (TagStr ''sidebar_tree'')) ?g1"
  let ?g3 = "add_tree_nodes fs (list_subdirs fs (path_of fs (root_dir s))) ?g2"
  note fd = fold_delete_item_store [of "get_item_children ?g1 (TagStr ''sidebar_tree'')" ?g1]
  have ok2: "items_ok (last_uuid ?g2) (items ?g2)"
    using items_ok_subset [OF d(1), of "items ?g2"] fd by simp
  note tn = add_tree_nodes_store [OF ok2, of fs "list_subdirs fs (path_of fs (root_dir s))"]
  have le: "last_uuid g \<le> last_uuid ?g3" using tn fd by simp
  have "store_ok (s, ?g3)"
  proof (intro store_okI)
    show "items_ok (last_uuid ?g3) (items ?g3)" using tn by simp
    show "bindings_ok (last_uuid ?g3) (bindings ?g3)"
      using bindings_ok_mono [OF d(2) le] tn fd by simp
    show "tag_le (texreg s) (last_uuid ?g3)" by (rule tag_le_mono [OF d(3) le])
    show "tag_le gc (last_uuid ?g3)" if "grid_child s = Some gc" for gc
      by (rule tag_le_mono [OF d(4) [OF that] le])
  qed
  then show ?thesis by (simp add: rebuild_sidebar_tree_def Let_def)
qed

lemma handle_store_ok:
  assumes ok: "store_ok sg"
  shows "store_ok (handle pil_ok ev sg)"
proof -
  obtain s g where sg: "sg = (s, g)" by (cases sg)
  show ?thesis
  proof (cases ev)
    case (RootChosen e fs p)
    have "store_ok (s\<lparr>root_dir := p\<rparr>, g)"
      using ok sg by (auto simp: store_ok_def split: option.splits)
    then have "store_ok (load_directory_images fs p (s\<lparr>root_dir := p\<rparr>, g))"
      by (rule load_directory_images_store_ok)
    then have "store_ok (rebuild_sidebar_tree e fs (load_directory_images fs p (s\<lparr>root_dir := p\<rparr>, g)))"
      using rebuild_sidebar_tree_store_ok
        [of "fst (load_directory_images fs p (s\<lparr>root_dir := p\<rparr>, g))"
            "snd (load_directory_images fs p (s\<lparr>root_dir := p\<rparr>, g))" e fs]
      by simp
    then have "store_ok (build_thumbnail_grid pil_ok e
        (rebuild_sidebar_tree e fs (load_directory_images fs p (s\<lparr>root_dir := p\<rparr>, g))))"
      using build_thumbnail_grid_store_ok
        [of "fst (rebuild_sidebar_tree e fs (load_directory_images fs p (s\<lparr>root_dir := p\<rparr>, g)))"
            "snd (rebuild_sidebar_tree e fs (load_directory_images fs p (s\<lparr>root_dir := p\<rparr>, g)))" pil_ok e]
      by simp
    with RootChosen sg show ?thesis
      by (simp add: set_root_directory_def)
  next
    case (FolderClicked e fs p)
    have "store_ok (load_directory_images fs p sg)"
      by (rule load_directory_images_store_ok [OF ok])
    then have "store_ok (build_thumbnail_grid pil_ok e (load_directory_images fs p sg))"
      using build_thumbnail_grid_store_ok
        [of "fst (load_directory_images fs p sg)" "snd (load_directory_images fs p sg)" pil_ok e]
      by simp
    with FolderClicked show ?thesis by (simp add: on_folder_click_def)
  next
    case (Resized e app_data)
    from resize_callback_cases [of pil_ok e app_data sg] show ?thesis
    proof
      assume "resize_callback pil_ok e app_data sg = sg"
      with ok Resized show ?thesis by simp
    next
      assume "\<exists>w h. resize_callback pil_ok e app_data sg
         = build_thumbnail_grid pil_ok e (fst sg, (snd sg)\<lparr>main_window_size := (w, h - 30)\<rparr>)"
      then obtain w h where r: "resize_callback pil_ok e app_data sg
         = build_thumbnail_grid pil_ok e (fst sg, (snd sg)\<lparr>main_window_size := (w, h - 30)\<rparr>)"
        by blast
      have "store_ok (fst sg, (snd sg)\<lparr>main_window_size := (w, h - 30)\<rparr>)"
        using ok by (simp add: store_ok_window)
      from build_thumbnail_grid_store_ok [OF this] r Resized show ?thesis by simp
    qed
  next
    case (WidthChanged e)
    with build_thumbnail_grid_store_ok [of s g pil_ok e] ok sg show ?thesis by simp
  next
    case (ThumbRequested e p)
    obtain r s' g' where t: "thumb_for pil_ok e (s, g) p = (r, s', g')"
      by (cases "thumb_for pil_ok e (s, g) p") auto
    from thumb_for_store_ok [OF t] ok sg ThumbRequested t show ?thesis by simp
  qed
qed

lemma run_store_ok: "store_ok sg \<Longrightarrow> store_ok (run pil_ok evs sg)"
proof (induction evs arbitrary: sg)
  case Nil
  then show ?case by (simp add: run_def)
next
  case (Cons ev evs)
  from Cons.IH [OF handle_store_ok [OF Cons.prems]] show ?case
    by (simp add: run_def)
qed

lemma reachable_store_ok: "store_ok (run pil_ok evs (example_state imgs, example_dpg))"
  by (rule run_store_ok [OF example_store_ok])

end
